theory Spec2Isabelle
  imports Complex_Main "HOL-Library.AList"
begin

section \<open>The auto-trader of trader-3.py\<close>

text \<open>
  A shallow embedding of the class \<open>AutoTrader\<close>. Python's unbounded integers are
  \<open>int\<close>, the two order dictionaries are association lists in insertion order (the
  order in which Python iterates a dict), the hedge sets are sets, and every handler takes
  the trader's state and returns the new one.

  Two parts of the host are made explicit in the state. The field \<open>clock\<close> is the
  wall clock that \<open>time.time()\<close> reads and that \<open>time.sleep\<close> advances; its readings
  are idealised as real numbers, and no time passes inside a handler except while it
  sleeps. The field \<open>sent\<close> is the log of the commands handed to the transport
  (\<open>send_insert_order\<close>, \<open>send_cancel_order\<close> and \<open>send_hedge_order\<close> of the base
  class). Log lines are not modelled.
\<close>

subsection \<open>Constants\<close>

definition LOT_SIZE :: int where
  "LOT_SIZE = 20"

definition POSITION_LIMIT :: int where
  "POSITION_LIMIT = 100"

definition ARBITRAGE_LIMIT :: int where
  "ARBITRAGE_LIMIT = 20"

definition TICK_SIZE_IN_CENTS :: int where
  "TICK_SIZE_IN_CENTS = 100"

text \<open>
  \<open>MINIMUM_BID\<close> and \<open>MAXIMUM_ASK\<close> are imported from the host package, which is
  not part of the source; they are parameters here.
\<close>

definition MIN_BID_NEAREST_TICK :: "int \<Rightarrow> int" where
  "MIN_BID_NEAREST_TICK MINIMUM_BID =
     (MINIMUM_BID + TICK_SIZE_IN_CENTS) div TICK_SIZE_IN_CENTS * TICK_SIZE_IN_CENTS"

definition MAX_ASK_NEAREST_TICK :: "int \<Rightarrow> int" where
  "MAX_ASK_NEAREST_TICK MAXIMUM_ASK =
     MAXIMUM_ASK div TICK_SIZE_IN_CENTS * TICK_SIZE_IN_CENTS"

subsection \<open>Data\<close>

datatype Instrument = FUTURE | ETF

datatype Side = SELL | BUY

abbreviation ASK :: Side where
  "ASK \<equiv> SELL"

abbreviation BID :: Side where
  "BID \<equiv> BUY"

datatype Lifespan = FILL_AND_KILL | GOOD_FOR_DAY

datatype error = IndexError | UnicodeDecodeError

datatype command =
    InsertOrder int Side int int Lifespan
  | CancelOrder int
  | HedgeOrder int Side int int

record state =
  order_ids :: int
  bids :: "(int \<times> int) list"
  asks :: "(int \<times> int) list"
  hedge_bid :: "int set"
  hedge_ask :: "int set"
  msg_seq :: int
  order_timestamps :: "real list"
  position :: int
  future_bid :: int
  future_ask :: int
  delta :: int
  clock :: real
  sent :: "command list"

definition init :: "real \<Rightarrow> state" where
  "init now = \<lparr> order_ids = 1, bids = [], asks = [], hedge_bid = {}, hedge_ask = {},
     msg_seq = 0, order_timestamps = [], position = 0, future_bid = 0, future_ask = 0,
     delta = 0, clock = now, sent = [] \<rparr>"

definition time_sleep :: "real \<Rightarrow> state \<Rightarrow> state" where
  "time_sleep d s = s\<lparr>clock := clock s + d\<rparr>"

subsection \<open>Rate limit\<close>

text \<open>
  The \<open>while\<close> loop of \<open>check_message_limit\<close>: drop timestamps from the front of the
  deque while the first one is older than 1.01 seconds.
\<close>

fun popleft_old :: "real \<Rightarrow> real list \<Rightarrow> real list" where
  "popleft_old current_time [] = []"
| "popleft_old current_time (t # ts) =
     (if t < current_time - 1.01 then popleft_old current_time ts else t # ts)"

text \<open>The body of \<open>check_message_limit\<close> on the deque alone, at a given clock reading.\<close>

definition check_window :: "real \<Rightarrow> real list \<Rightarrow> bool \<times> real list" where
  "check_window current_time w =
     (let w' = popleft_old current_time w
      in if length w' = 50 then (False, w') else (True, w' @ [current_time]))"

definition check_message_limit :: "state \<Rightarrow> bool \<times> state" where
  "check_message_limit s =
     (let (ok, w) = check_window (clock s) (order_timestamps s)
      in (ok, s\<lparr>order_timestamps := w\<rparr>))"

subsection \<open>Send wrappers\<close>

definition send_bid_order :: "state \<Rightarrow> int \<Rightarrow> int \<Rightarrow> Lifespan \<Rightarrow> bool \<times> state" where
  "send_bid_order s price volume type =
     (let (ok, s1) = check_message_limit s
      in if \<not> ok then (False, s1)
         else let bid_id = order_ids s1
              in (True, s1\<lparr>order_ids := bid_id + 1,
                          sent := sent s1 @ [InsertOrder bid_id BUY price volume type],
                          bids := AList.update bid_id price (bids s1)\<rparr>))"

definition send_ask_order :: "state \<Rightarrow> int \<Rightarrow> int \<Rightarrow> Lifespan \<Rightarrow> bool \<times> state" where
  "send_ask_order s price volume type =
     (let (ok, s1) = check_message_limit s
      in if \<not> ok then (False, s1)
         else let ask_id = order_ids s1
              in (True, s1\<lparr>order_ids := ask_id + 1,
                          sent := sent s1 @ [InsertOrder ask_id SELL price volume type],
                          asks := AList.update ask_id price (asks s1)\<rparr>))"

text \<open>
  The loop \<open>while not self.check_message_limit(): time.sleep(0.1)\<close>. It may in
  principle never end, so it is a partial function and \<open>None\<close> stands for a loop that
  does not return.
\<close>

partial_function (option) wait_message_limit :: "state \<Rightarrow> state option" where
  "wait_message_limit s =
     (case check_message_limit s of
        (ok, s1) \<Rightarrow> if ok then Some s1 else wait_message_limit (time_sleep 0.1 s1))"

definition send_hedge_order :: "state \<Rightarrow> int \<Rightarrow> int \<Rightarrow> Side \<Rightarrow> (bool \<times> state) option" where
  "send_hedge_order s price volume side =
     (case wait_message_limit s of
        None \<Rightarrow> None
      | Some s1 \<Rightarrow>
          let order_id = order_ids s1;
              s2 = s1\<lparr>order_ids := order_id + 1\<rparr>;
              s3 = (if side = BID then s2\<lparr>hedge_bid := insert order_id (hedge_bid s2)\<rparr>
                    else s2\<lparr>hedge_ask := insert order_id (hedge_ask s2)\<rparr>)
          in Some (True, s3\<lparr>sent := sent s3 @ [HedgeOrder order_id side price volume]\<rparr>))"

definition send_cancel_order :: "state \<Rightarrow> int \<Rightarrow> bool \<times> state" where
  "send_cancel_order s order_id =
     (let (ok, s1) = check_message_limit s
      in if \<not> ok then (False, s1)
         else (True, s1\<lparr>sent := sent s1 @ [CancelOrder order_id]\<rparr>))"

subsection \<open>Python lists\<close>

text \<open>Reading a list at a non-negative index, and at index \<open>-1\<close>; both raise out of range.\<close>

definition py_index :: "int list \<Rightarrow> nat \<Rightarrow> error + int" where
  "py_index xs i = (if i < length xs then Inr (xs ! i) else Inl IndexError)"

definition py_last :: "int list \<Rightarrow> error + int" where
  "py_last xs = (if xs = [] then Inl IndexError else Inr (last xs))"

text \<open>
  \<open>range(start, stop, step)\<close> for a positive step, the only kind the trader uses
  (the step is always \<open>TICK_SIZE_IN_CENTS\<close>).
\<close>

function range_step :: "int \<Rightarrow> int \<Rightarrow> int \<Rightarrow> int list" where
  "range_step start stop step =
     (if 0 < step \<and> start < stop then start # range_step (start + step) stop step else [])"
  by pat_completeness auto
termination
  by (relation "measure (\<lambda>(start, stop, step). nat (stop - start))") auto

declare range_step.simps [simp del]

subsection \<open>Cancelling orders\<close>

text \<open>
  The loops of the shape \<open>for order_id, price in orders.items(): if P(price):
  self.send_cancel_order(order_id)\<close>, which occur twice in \<open>trim_orders\<close> and twice in
  \<open>clear_book\<close>.
\<close>

fun cancel_where :: "(int \<Rightarrow> bool) \<Rightarrow> (int \<times> int) list \<Rightarrow> state \<Rightarrow> state" where
  "cancel_where P [] s = s"
| "cancel_where P ((order_id, price) # items) s =
     (if P price then cancel_where P items (snd (send_cancel_order s order_id))
      else cancel_where P items s)"

definition trim_orders :: "state \<Rightarrow> state" where
  "trim_orders s =
     (let s1 = cancel_where (\<lambda>bid. bid > future_ask s) (bids s) s
      in cancel_where (\<lambda>ask. ask < future_bid s1) (asks s1) s1)"

text \<open>
  One cutoff loop of \<open>clear_book\<close>: \<open>i\<close> is the loop index, \<open>vol\<close> the volume summed so
  far and \<open>cutoff\<close> the value the variable holds when the loop ends without a break.
\<close>

fun cutoff_loop :: "int list \<Rightarrow> int list \<Rightarrow> nat \<Rightarrow> int \<Rightarrow> int \<Rightarrow> error + int" where
  "cutoff_loop prices [] i vol cutoff = Inr cutoff"
| "cutoff_loop prices (v # volumes) i vol cutoff =
     (if vol + v \<ge> 3 * LOT_SIZE then py_index prices i
      else cutoff_loop prices volumes (Suc i) (vol + v) cutoff)"

definition clear_book ::
  "state \<Rightarrow> int list \<Rightarrow> int list \<Rightarrow> int list \<Rightarrow> int list \<Rightarrow> error + state" where
  "clear_book s ask_prices bid_prices ask_volumes bid_volumes =
     (case py_last ask_prices of Inl e \<Rightarrow> Inl e | Inr last_ask \<Rightarrow>
      case py_last bid_prices of Inl e \<Rightarrow> Inl e | Inr last_bid \<Rightarrow>
      case cutoff_loop ask_prices ask_volumes 0 0 last_ask of Inl e \<Rightarrow> Inl e | Inr cutoff_ask \<Rightarrow>
      case cutoff_loop bid_prices bid_volumes 0 0 last_bid of Inl e \<Rightarrow> Inl e | Inr cutoff_bid \<Rightarrow>
        let s1 = cancel_where (\<lambda>bid. bid \<le> cutoff_bid) (bids s) s
        in Inr (cancel_where (\<lambda>ask. ask \<ge> cutoff_ask) (asks s1) s1))"

subsection \<open>Arbitrage\<close>

definition handle_arbitrage ::
  "state \<Rightarrow> int list \<Rightarrow> int list \<Rightarrow> int list \<Rightarrow> int list \<Rightarrow> error + state" where
  "handle_arbitrage s ask_prices ask_volumes bid_prices bid_volumes =
     (case py_index ask_prices 0 of Inl e \<Rightarrow> Inl e | Inr ask0 \<Rightarrow>
      if ask0 < future_bid s then
        (case py_index ask_volumes 0 of Inl e \<Rightarrow> Inl e | Inr ask_volume0 \<Rightarrow>
         let buy_volume = min ask_volume0 (ARBITRAGE_LIMIT - position s);
             buy_price = ask0
         in if buy_volume > 0
            then Inr (snd (send_bid_order s buy_price buy_volume FILL_AND_KILL))
            else Inr s)
      else
        (case py_index bid_prices 0 of Inl e \<Rightarrow> Inl e | Inr bid0 \<Rightarrow>
         if bid0 > future_ask s then
           (case py_index bid_volumes 0 of Inl e \<Rightarrow> Inl e | Inr bid_volume0 \<Rightarrow>
            let sell_volume = min bid_volume0 (position s + ARBITRAGE_LIMIT);
                sell_price = bid0
            in if sell_volume > 0
               then Inr (snd (send_ask_order s sell_price sell_volume FILL_AND_KILL))
               else Inr s)
         else Inr s))"

subsection \<open>Market making\<close>

text \<open>The two ladder loops of \<open>handle_market_making\<close>, over the prices of the range.\<close>

fun place_asks :: "int list \<Rightarrow> int \<Rightarrow> state \<Rightarrow> state" where
  "place_asks [] max_sell_order s = s"
| "place_asks (i # rest) max_sell_order s =
     (if i \<notin> snd ` set (asks s) \<and> max_sell_order > 0
      then place_asks rest (max_sell_order - 1) (snd (send_ask_order s i LOT_SIZE GOOD_FOR_DAY))
      else place_asks rest max_sell_order s)"

fun place_bids :: "int list \<Rightarrow> int \<Rightarrow> state \<Rightarrow> state" where
  "place_bids [] max_buy_order s = s"
| "place_bids (i # rest) max_buy_order s =
     (if i \<notin> snd ` set (bids s) \<and> max_buy_order > 0
      then place_bids rest (max_buy_order - 1) (snd (send_bid_order s i LOT_SIZE GOOD_FOR_DAY))
      else place_bids rest max_buy_order s)"

definition handle_market_making ::
  "state \<Rightarrow> int list \<Rightarrow> int list \<Rightarrow> int list \<Rightarrow> int list \<Rightarrow> error + state" where
  "handle_market_making s bid_prices bid_volumes ask_prices ask_volumes =
     (case clear_book s ask_prices bid_prices ask_volumes bid_volumes of
        Inl e \<Rightarrow> Inl e
      | Inr s1 \<Rightarrow>
          let max_buy_order = (POSITION_LIMIT - position s1) div LOT_SIZE - int (length (bids s1));
              max_sell_order = (position s1 + POSITION_LIMIT) div LOT_SIZE - int (length (asks s1));
              max_bid = future_bid s1 - 2 * TICK_SIZE_IN_CENTS;
              min_ask = future_ask s1 + 2 * TICK_SIZE_IN_CENTS
          in case py_index bid_prices 0 of Inl e \<Rightarrow> Inl e | Inr etf_bid \<Rightarrow>
             case py_index ask_prices 0 of Inl e \<Rightarrow> Inl e | Inr etf_ask \<Rightarrow>
               let s2 = place_asks (range_step min_ask etf_ask TICK_SIZE_IN_CENTS) max_sell_order s1
               in Inr (place_bids (range_step etf_bid max_bid TICK_SIZE_IN_CENTS) max_buy_order s2))"

subsection \<open>Callbacks\<close>

definition on_order_status_message :: "state \<Rightarrow> int \<Rightarrow> int \<Rightarrow> int \<Rightarrow> int \<Rightarrow> state" where
  "on_order_status_message s client_order_id fill_volume remaining_volume fees =
     (if remaining_volume = 0
      then s\<lparr>bids := AList.delete client_order_id (bids s),
             asks := AList.delete client_order_id (asks s)\<rparr>
      else s)"

text \<open>
  \<open>decodable\<close> says whether \<open>error_message.decode()\<close> succeeds; the log line that
  decodes the message comes before anything else.
\<close>

definition on_error_message :: "state \<Rightarrow> int \<Rightarrow> bool \<Rightarrow> error + state" where
  "on_error_message s client_order_id decodable =
     (if \<not> decodable then Inl UnicodeDecodeError
      else if client_order_id \<noteq> 0
              \<and> (client_order_id \<in> fst ` set (bids s) \<or> client_order_id \<in> fst ` set (asks s))
      then Inr (on_order_status_message s client_order_id 0 0 0)
      else Inr s)"

definition on_order_book_update_message ::
  "state \<Rightarrow> Instrument \<Rightarrow> int \<Rightarrow> int list \<Rightarrow> int list \<Rightarrow> int list \<Rightarrow> int list \<Rightarrow> error + state" where
  "on_order_book_update_message s instrument sequence_number
       ask_prices ask_volumes bid_prices bid_volumes =
     (let s1 = s\<lparr>msg_seq := max (msg_seq s) sequence_number\<rparr>
      in if sequence_number \<noteq> msg_seq s1 then Inr s1
         else case py_index bid_prices 0 of Inl e \<Rightarrow> Inl e | Inr bid0 \<Rightarrow>
           if bid0 = 0 then Inr s1
           else case py_index ask_prices 0 of Inl e \<Rightarrow> Inl e | Inr ask0 \<Rightarrow>
           if ask0 = 0 then Inr s1
           else
             case (if instrument = ETF then
                     (if ask0 < future_bid s1 \<or> bid0 > future_ask s1
                      then handle_arbitrage s1 ask_prices ask_volumes bid_prices bid_volumes
                      else if ask0 > future_ask s1 \<and> bid0 < future_bid s1
                      then handle_market_making s1 bid_prices bid_volumes ask_prices ask_volumes
                      else Inr s1)
                   else Inr s1) of
               Inl e \<Rightarrow> Inl e
             | Inr s2 \<Rightarrow>
                 if instrument = FUTURE
                 then Inr (trim_orders (s2\<lparr>future_bid := bid0, future_ask := ask0\<rparr>))
                 else Inr s2)"

text \<open>\<open>None\<close>: the hedge send never gets through and the handler does not return.\<close>

definition on_order_filled_message ::
  "int \<Rightarrow> int \<Rightarrow> state \<Rightarrow> int \<Rightarrow> int \<Rightarrow> int \<Rightarrow> state option" where
  "on_order_filled_message MINIMUM_BID MAXIMUM_ASK s client_order_id price volume =
     (if client_order_id \<in> fst ` set (bids s) then
        map_option snd
          (send_hedge_order (s\<lparr>position := position s + volume, delta := delta s + volume\<rparr>)
             (MIN_BID_NEAREST_TICK MINIMUM_BID) volume ASK)
      else if client_order_id \<in> fst ` set (asks s) then
        map_option snd
          (send_hedge_order (s\<lparr>position := position s - volume, delta := delta s - volume\<rparr>)
             (MAX_ASK_NEAREST_TICK MAXIMUM_ASK) volume BID)
      else Some s)"

definition on_hedge_filled_message :: "state \<Rightarrow> int \<Rightarrow> int \<Rightarrow> int \<Rightarrow> state" where
  "on_hedge_filled_message s client_order_id price volume =
     (if client_order_id \<in> hedge_bid s
      then s\<lparr>hedge_bid := hedge_bid s - {client_order_id}, delta := delta s + volume\<rparr>
      else if client_order_id \<in> hedge_ask s
      then s\<lparr>hedge_ask := hedge_ask s - {client_order_id}, delta := delta s - volume\<rparr>
      else s)"

definition on_trade_ticks_message ::
  "state \<Rightarrow> Instrument \<Rightarrow> int \<Rightarrow> int list \<Rightarrow> int list \<Rightarrow> int list \<Rightarrow> int list \<Rightarrow> state" where
  "on_trade_ticks_message s instrument sequence_number
       ask_prices ask_volumes bid_prices bid_volumes = s"

subsection \<open>Sequences of callbacks\<close>

text \<open>
  What the host delivers, one callback at a time; \<open>Elapse d\<close> lets \<open>d\<close> seconds pass
  between two callbacks. \<open>deliver\<close> gives \<open>None\<close> when the handler raises or does not
  return.
\<close>

datatype event =
    OrderBookUpdate Instrument int "int list" "int list" "int list" "int list"
  | TradeTicks Instrument int "int list" "int list" "int list" "int list"
  | OrderFilled int int int
  | OrderStatus int int int int
  | HedgeFilled int int int
  | ErrorMessage int bool
  | Elapse real

fun deliver :: "int \<Rightarrow> int \<Rightarrow> event \<Rightarrow> state \<Rightarrow> state option" where
  "deliver lo hi (OrderBookUpdate i n ap av bp bv) s =
     (case on_order_book_update_message s i n ap av bp bv of Inl e \<Rightarrow> None | Inr s' \<Rightarrow> Some s')"
| "deliver lo hi (TradeTicks i n ap av bp bv) s = Some (on_trade_ticks_message s i n ap av bp bv)"
| "deliver lo hi (OrderFilled oid p v) s = on_order_filled_message lo hi s oid p v"
| "deliver lo hi (OrderStatus oid f r fees) s = Some (on_order_status_message s oid f r fees)"
| "deliver lo hi (HedgeFilled oid p v) s = Some (on_hedge_filled_message s oid p v)"
| "deliver lo hi (ErrorMessage oid d) s =
     (case on_error_message s oid d of Inl e \<Rightarrow> None | Inr s' \<Rightarrow> Some s')"
| "deliver lo hi (Elapse d) s = Some (time_sleep d s)"

fun run :: "int \<Rightarrow> int \<Rightarrow> event list \<Rightarrow> state \<Rightarrow> state option" where
  "run lo hi [] s = Some s"
| "run lo hi (e # es) s =
     (case deliver lo hi e s of None \<Rightarrow> None | Some s' \<Rightarrow> run lo hi es s')"

subsection \<open>Sequences of rate-limit checks\<close>

text \<open>
  Calling the check at the clock readings \<open>ts\<close> in turn, starting with the deque \<open>w\<close>:
  the readings of the calls that return true, and the deque left at the end.
\<close>

fun admitted :: "real list \<Rightarrow> real list \<Rightarrow> real list" where
  "admitted w [] = []"
| "admitted w (t # ts) =
     (case check_window t w of (ok, w') \<Rightarrow> if ok then t # admitted w' ts else admitted w' ts)"

fun window_after :: "real list \<Rightarrow> real list \<Rightarrow> real list" where
  "window_after w [] = w"
| "window_after w (t # ts) = window_after (snd (check_window t w)) ts"

text \<open>The trailing 1.01-second window that ends at \<open>T\<close>.\<close>

definition in_trailing_window :: "real \<Rightarrow> real \<Rightarrow> bool" where
  "in_trailing_window T a = (T - 1.01 \<le> a \<and> a \<le> T)"

subsection \<open>Rounding to the tick\<close>

text \<open>A price rounded down, and rounded up, to a multiple of the tick size.\<close>

definition tick_floor :: "int \<Rightarrow> int" where
  "tick_floor x = x div TICK_SIZE_IN_CENTS * TICK_SIZE_IN_CENTS"

definition tick_ceiling :: "int \<Rightarrow> int" where
  "tick_ceiling x = - ((- x) div TICK_SIZE_IN_CENTS) * TICK_SIZE_IN_CENTS"

subsection \<open>Auxiliary notions\<close>

text \<open>Whether the next rate-limit check succeeds: the pruned deque does not hold 50 entries.\<close>

definition has_room :: "state \<Rightarrow> bool" where
  "has_room s = (length (popleft_old (clock s) (order_timestamps s)) \<noteq> 50)"

text \<open>The fields that no send wrapper touches.\<close>

definition core :: "state \<Rightarrow> int \<times> int \<times> int \<times> int \<times> int \<times> real \<times> int set \<times> int set" where
  "core s = (position s, delta s, msg_seq s, future_bid s, future_ask s, clock s,
             hedge_bid s, hedge_ask s)"

text \<open>A book update for the future, whatever its content.\<close>

fun is_future_update :: "event \<Rightarrow> bool" where
  "is_future_update (OrderBookUpdate i n ap av bp bv) = (i = FUTURE)"
| "is_future_update e = False"

subsection \<open>The cutoff of the book clearing, in the words of the specification\<close>

text \<open>
  The price of the first level, best first, at which the cumulative volume reaches
  \<open>3 * LOT_SIZE\<close>; the fifth reported price when no level reaches it.
\<close>

definition cutoff_spec :: "int list \<Rightarrow> int list \<Rightarrow> int" where
  "cutoff_spec prices volumes =
     (case List.find (\<lambda>i. 3 * LOT_SIZE \<le> sum_list (take (Suc i) volumes)) [0..<length volumes] of
        Some i \<Rightarrow> prices ! i
      | None \<Rightarrow> prices ! 4)"

text \<open>The identifiers of the orders of a dictionary whose price satisfies \<open>P\<close>, in order.\<close>

definition ids_where :: "(int \<Rightarrow> bool) \<Rightarrow> (int \<times> int) list \<Rightarrow> int list" where
  "ids_where P items = map fst (filter (\<lambda>(order_id, price). P price) items)"

text \<open>How many more sends the rate limit admits at the current clock reading.\<close>

definition room :: "state \<Rightarrow> nat" where
  "room s = 50 - length (popleft_old (clock s) (order_timestamps s))"

subsection \<open>Ladders of quotes\<close>

text \<open>
  The insert commands of a ladder of good-for-day quotes of \<open>LOT_SIZE\<close> lots, one per
  price, numbered from \<open>order_id\<close> on.
\<close>

fun ladder :: "Side \<Rightarrow> int \<Rightarrow> int list \<Rightarrow> command list" where
  "ladder side order_id [] = []"
| "ladder side order_id (price # prices) =
     InsertOrder order_id side price LOT_SIZE GOOD_FOR_DAY # ladder side (order_id + 1) prices"

text \<open>Every identifier in the two dictionaries was handed out before.\<close>

definition ids_fresh :: "state \<Rightarrow> bool" where
  "ids_fresh s = ((\<forall>k\<in>fst ` set (bids s). k < order_ids s)
                \<and> (\<forall>k\<in>fst ` set (asks s). k < order_ids s))"

subsection \<open>Well-formed states\<close>

text \<open>
  What holds of every state the trader can be in: the dictionaries have one entry per
  identifier, every identifier in them was handed out before, and the deque holds at most
  50 timestamps.
\<close>

definition trader_ok :: "state \<Rightarrow> bool" where
  "trader_ok s = (ids_fresh s \<and> length (order_timestamps s) \<le> 50
                  \<and> distinct (map fst (bids s)) \<and> distinct (map fst (asks s)))"

section \<open>Properties\<close>

subsection \<open>The rate limit\<close>

lemma popleft_old_split:
  "\<exists>d. w = d @ popleft_old t w \<and> (\<forall>x\<in>set d. x < t - 1.01)"
proof (induction w)
  case Nil
  show ?case by simp
next
  case (Cons a w)
  then obtain d where d: "w = d @ popleft_old t w" "\<forall>x\<in>set d. x < t - 1.01" by blast
  show ?case
  proof (cases "a < t - 1.01")
    case True
    with d have "a # w = (a # d) @ popleft_old t (a # w) \<and> (\<forall>x\<in>set (a # d). x < t - 1.01)"
      by simp
    then show ?thesis by blast
  next
    case False
    then have "a # w = [] @ popleft_old t (a # w) \<and> (\<forall>x\<in>set ([]::real list). x < t - 1.01)"
      by simp
    then show ?thesis by blast
  qed
qed

lemma popleft_old_length: "length (popleft_old t w) \<le> length w"
  using popleft_old_split [of w t] by (metis le_add2 length_append)

lemma popleft_old_subset: "set (popleft_old t w) \<subseteq> set w"
  using popleft_old_split [of w t] by (metis Un_upper2 set_append)

lemma popleft_old_all_old: "\<forall>x\<in>set w. x < t - 1.01 \<Longrightarrow> popleft_old t w = []"
  by (induction w) auto

lemma admitted_subset: "set (admitted w ts) \<subseteq> set ts"
  by (induction ts arbitrary: w) (auto split: prod.splits if_splits)

lemma window_after_subset: "set (window_after w ts) \<subseteq> set w \<union> set ts"
proof (induction ts arbitrary: w)
  case Nil
  show ?case by simp
next
  case (Cons t ts)
  have "set (snd (check_window t w)) \<subseteq> set w \<union> {t}"
    using popleft_old_subset [of t w] by (auto simp: check_window_def Let_def)
  with Cons [of "snd (check_window t w)"] show ?case by auto
qed

lemma admitted_window_bound:
  assumes "sorted ts" "length w \<le> 50"
  shows "length (filter (\<lambda>a. T - 1.01 \<le> a \<and> a \<le> T) (w @ admitted w ts)) \<le> 50"
  using assms
proof (induction ts arbitrary: w)
  case Nil
  have "length (filter (\<lambda>a. T - 1.01 \<le> a \<and> a \<le> T) w) \<le> length w"
    by (rule length_filter_le)
  then show ?case unfolding admitted.simps append_Nil2 using Nil.prems(2) by (rule le_trans)
next
  case (Cons t ts)
  define P where "P = (\<lambda>a. T - 1.01 \<le> a \<and> a \<le> T)"
  define k where "k = popleft_old t w"
  define w' where "w' = snd (check_window t w)"
  define adm where "adm = admitted w (t # ts)"
  obtain d where d: "w = d @ k" "\<forall>x\<in>set d. x < t - 1.01"
    unfolding k_def using popleft_old_split by blast
  have srt: "sorted ts" and ge: "\<forall>x\<in>set (t # ts). t \<le> x" using Cons.prems by auto
  have lenk: "length k \<le> 50"
    unfolding k_def using popleft_old_length [of t w] Cons.prems by linarith
  have lenw': "length w' \<le> 50"
    using lenk unfolding k_def w'_def by (auto simp: check_window_def Let_def)
  have IH: "length (filter P (w' @ admitted w' ts)) \<le> 50"
    unfolding P_def using Cons.IH [OF srt lenw'] .
  have eq: "k @ adm = w' @ admitted w' ts"
    unfolding k_def w'_def adm_def by (auto simp: check_window_def Let_def)
  have "set adm \<subseteq> set (t # ts)" unfolding adm_def by (rule admitted_subset)
  with ge have adm_ge: "\<forall>x\<in>set adm. t \<le> x" by blast
  have "length (filter P (w @ adm)) \<le> 50"
  proof (cases "\<exists>x\<in>set d. P x")
    case True
    then have "T < t" using d(2) unfolding P_def by fastforce
    then have "filter P adm = []" using adm_ge unfolding P_def by (fastforce simp: filter_empty_conv)
    then have "length (filter P (w @ adm)) = length (filter P w)" by simp
    also have "\<dots> \<le> length w" by (rule length_filter_le)
    finally show ?thesis using Cons.prems by linarith
  next
    case False
    then have "filter P d = []" by (auto simp: filter_empty_conv)
    then have "filter P (w @ adm) = filter P (k @ adm)"
      by (subst d(1)) simp
    with IH eq show ?thesis by simp
  qed
  then show ?case unfolding P_def adm_def .
qed

text \<open>
  Claim C5. Take any sequence of calls of the check at non-decreasing clock readings,
  starting with an empty deque. For every \<open>T\<close>, at most 50 of the calls that returned
  true have their reading in the trailing window \<open>[T - 1.01, T]\<close>. When the pruned deque
  holds 50 timestamps the call returns false and appends nothing, and the next call, made
  1.02 seconds after that refused one, returns true: every older entry has aged out.
  Clock readings are real numbers here.
\<close>

theorem check_message_limit_rate:
  assumes "sorted (ts @ [t])"
  shows "length (filter (in_trailing_window T) (admitted [] (ts @ [t]))) \<le> 50
       \<and> (length (popleft_old t (window_after [] ts)) = 50 \<longrightarrow>
            check_window t (window_after [] ts) = (False, popleft_old t (window_after [] ts))
          \<and> check_window (t + 1.02) (snd (check_window t (window_after [] ts)))
              = (True, [t + 1.02]))"
proof -
  have "length (filter (\<lambda>a. T - 1.01 \<le> a \<and> a \<le> T) ([] @ admitted [] (ts @ [t]))) \<le> 50"
    by (rule admitted_window_bound [OF assms]) simp
  then have bound: "length (filter (in_trailing_window T) (admitted [] (ts @ [t]))) \<le> 50"
    unfolding in_trailing_window_def by simp
  have refused: "check_window t (window_after [] ts) = (False, popleft_old t (window_after [] ts))"
    if "length (popleft_old t (window_after [] ts)) = 50"
    using that by (simp add: check_window_def)
  have later: "check_window (t + 1.02) (popleft_old t (window_after [] ts)) = (True, [t + 1.02])"
  proof -
    have "set (popleft_old t (window_after [] ts)) \<subseteq> set ts"
      using popleft_old_subset [of t "window_after [] ts"] window_after_subset [of "[]" ts]
      by auto
    moreover have "\<forall>x\<in>set ts. x \<le> t" using assms by (simp add: sorted_append)
    ultimately have "\<forall>x\<in>set (popleft_old t (window_after [] ts)). x < (t + 1.02) - 1.01"
      by fastforce
    then have "popleft_old (t + 1.02) (popleft_old t (window_after [] ts)) = []"
      by (rule popleft_old_all_old)
    then show ?thesis by (simp add: check_window_def)
  qed
  show ?thesis using bound refused later by simp
qed

theorem check_message_limit_rate_witness:
  "sorted (replicate 50 0 @ [0::real])
   \<and> length (popleft_old 0 (window_after [] (replicate 50 0))) = 50
   \<and> length (filter (in_trailing_window 0) (admitted [] (replicate 50 0 @ [0]))) \<le> 50
   \<and> check_window 0 (window_after [] (replicate 50 0))
       = (False, popleft_old 0 (window_after [] (replicate 50 0)))
   \<and> check_window (0 + 1.02) (snd (check_window 0 (window_after [] (replicate 50 0))))
       = (True, [0 + 1.02])"
proof -
  have h1: "sorted (replicate 50 0 @ [0::real])" by (simp add: sorted_append)
  have h2: "length (popleft_old 0 (window_after [] (replicate 50 0))) = 50" by code_simp
  show ?thesis
    using check_message_limit_rate [OF h1, of 0] h1 h2 by blast
qed

subsection \<open>Hedging a fill\<close>


lemma check_message_limit_frame:
  "snd (check_message_limit s) = s\<lparr>order_timestamps := order_timestamps (snd (check_message_limit s))\<rparr>"
  by (simp add: check_message_limit_def split: prod.splits)

lemma wait_message_limit_bounded:
  "\<forall>e\<in>set (order_timestamps s). e < clock s + real n / 10 - 1.01 \<Longrightarrow>
   \<exists>w c. wait_message_limit s = Some (s\<lparr>order_timestamps := w, clock := c\<rparr>)"
proof (induction n arbitrary: s)
  case 0
  then have "popleft_old (clock s) (order_timestamps s) = []"
    by (intro popleft_old_all_old) simp
  then have "wait_message_limit s = Some (s\<lparr>order_timestamps := [clock s], clock := clock s\<rparr>)"
    by (subst wait_message_limit.simps) (simp add: check_message_limit_def check_window_def)
  then show ?case by blast
next
  case (Suc n)
  define w1 where "w1 = popleft_old (clock s) (order_timestamps s)"
  show ?case
  proof (cases "length w1 = 50")
    case False
    then have "wait_message_limit s
        = Some (s\<lparr>order_timestamps := w1 @ [clock s], clock := clock s\<rparr>)"
      unfolding w1_def
      by (subst wait_message_limit.simps) (simp add: check_message_limit_def check_window_def)
    then show ?thesis by blast
  next
    case True
    define s2 where "s2 = time_sleep 0.1 (s\<lparr>order_timestamps := w1\<rparr>)"
    have step: "wait_message_limit s = wait_message_limit s2"
      using True unfolding w1_def s2_def
      by (subst wait_message_limit.simps) (simp add: check_message_limit_def check_window_def)
    have "set w1 \<subseteq> set (order_timestamps s)" unfolding w1_def by (rule popleft_old_subset)
    then have "\<forall>e\<in>set (order_timestamps s2). e < clock s2 + real n / 10 - 1.01"
      using Suc.prems unfolding s2_def time_sleep_def by (auto simp: field_simps)
    from Suc.IH [OF this] obtain w c where
      "wait_message_limit s2 = Some (s2\<lparr>order_timestamps := w, clock := c\<rparr>)" by blast
    then have "wait_message_limit s = Some (s\<lparr>order_timestamps := w, clock := c\<rparr>)"
      using step unfolding s2_def time_sleep_def by simp
    then show ?thesis by blast
  qed
qed

lemma timestamps_bounded: "\<exists>n. \<forall>e\<in>set (w::real list). e < c + real n / 10 - 1.01"
proof (induction w)
  case Nil
  show ?case by simp
next
  case (Cons a w)
  then obtain n where n: "\<forall>e\<in>set w. e < c + real n / 10 - 1.01" by blast
  obtain m where m: "(a - c + 1.01) * 10 < real m" using reals_Archimedean2 by blast
  have "\<forall>e\<in>set (a # w). e < c + real (max m n) / 10 - 1.01"
  proof
    fix e assume "e \<in> set (a # w)"
    then consider "e = a" | "e \<in> set w" by auto
    then show "e < c + real (max m n) / 10 - 1.01"
    proof cases
      case 1
      have "real m \<le> real (max m n)" by simp
      with m 1 show ?thesis by (simp add: field_simps)
    next
      case 2
      have "real n \<le> real (max m n)" by simp
      with n 2 show ?thesis by (fastforce simp: field_simps)
    qed
  qed
  then show ?case by blast
qed

lemma wait_message_limit_returns:
  "\<exists>w c. wait_message_limit s = Some (s\<lparr>order_timestamps := w, clock := c\<rparr>)"
  using timestamps_bounded [of "order_timestamps s" "clock s"] wait_message_limit_bounded
  by blast

lemma send_hedge_order_returns:
  "\<exists>w c. send_hedge_order s price volume side =
     Some (True, s\<lparr>order_timestamps := w, clock := c, order_ids := order_ids s + 1,
                    hedge_bid := (if side = BID then insert (order_ids s) (hedge_bid s) else hedge_bid s),
                    hedge_ask := (if side = BID then hedge_ask s else insert (order_ids s) (hedge_ask s)),
                    sent := sent s @ [HedgeOrder (order_ids s) side price volume]\<rparr>)"
proof -
  obtain w c where "wait_message_limit s = Some (s\<lparr>order_timestamps := w, clock := c\<rparr>)"
    using wait_message_limit_returns by blast
  then have "send_hedge_order s price volume side =
     Some (True, s\<lparr>order_timestamps := w, clock := c, order_ids := order_ids s + 1,
                    hedge_bid := (if side = BID then insert (order_ids s) (hedge_bid s) else hedge_bid s),
                    hedge_ask := (if side = BID then hedge_ask s else insert (order_ids s) (hedge_ask s)),
                    sent := sent s @ [HedgeOrder (order_ids s) side price volume]\<rparr>)"
    by (simp add: send_hedge_order_def Let_def)
  then show ?thesis by blast
qed



lemma on_order_filled_bid:
  assumes "client_order_id \<in> fst ` set (bids s)"
  shows "\<exists>w c. on_order_filled_message MINIMUM_BID MAXIMUM_ASK s client_order_id price volume =
     Some (s\<lparr>position := position s + volume, delta := delta s + volume,
              order_timestamps := w, clock := c, order_ids := order_ids s + 1,
              hedge_ask := insert (order_ids s) (hedge_ask s),
              sent := sent s @ [HedgeOrder (order_ids s) ASK (MIN_BID_NEAREST_TICK MINIMUM_BID) volume]\<rparr>)"
proof -
  obtain w c where
    "send_hedge_order (s\<lparr>position := position s + volume, delta := delta s + volume\<rparr>)
       (MIN_BID_NEAREST_TICK MINIMUM_BID) volume ASK =
     Some (True, s\<lparr>position := position s + volume, delta := delta s + volume,
              order_timestamps := w, clock := c, order_ids := order_ids s + 1,
              hedge_ask := insert (order_ids s) (hedge_ask s),
              sent := sent s @ [HedgeOrder (order_ids s) ASK (MIN_BID_NEAREST_TICK MINIMUM_BID) volume]\<rparr>)"
    using send_hedge_order_returns
      [of "s\<lparr>position := position s + volume, delta := delta s + volume\<rparr>"
          "MIN_BID_NEAREST_TICK MINIMUM_BID" volume ASK]
    by auto
  then show ?thesis using assms by (auto simp: on_order_filled_message_def)
qed

lemma on_order_filled_ask:
  assumes "client_order_id \<notin> fst ` set (bids s)" "client_order_id \<in> fst ` set (asks s)"
  shows "\<exists>w c. on_order_filled_message MINIMUM_BID MAXIMUM_ASK s client_order_id price volume =
     Some (s\<lparr>position := position s - volume, delta := delta s - volume,
              order_timestamps := w, clock := c, order_ids := order_ids s + 1,
              hedge_bid := insert (order_ids s) (hedge_bid s),
              sent := sent s @ [HedgeOrder (order_ids s) BID (MAX_ASK_NEAREST_TICK MAXIMUM_ASK) volume]\<rparr>)"
proof -
  obtain w c where
    "send_hedge_order (s\<lparr>position := position s - volume, delta := delta s - volume\<rparr>)
       (MAX_ASK_NEAREST_TICK MAXIMUM_ASK) volume BID =
     Some (True, s\<lparr>position := position s - volume, delta := delta s - volume,
              order_timestamps := w, clock := c, order_ids := order_ids s + 1,
              hedge_bid := insert (order_ids s) (hedge_bid s),
              sent := sent s @ [HedgeOrder (order_ids s) BID (MAX_ASK_NEAREST_TICK MAXIMUM_ASK) volume]\<rparr>)"
    using send_hedge_order_returns
      [of "s\<lparr>position := position s - volume, delta := delta s - volume\<rparr>"
          "MAX_ASK_NEAREST_TICK MAXIMUM_ASK" volume BID]
    by auto
  then show ?thesis using assms by (auto simp: on_order_filled_message_def)
qed

lemma on_order_filled_unknown:
  "client_order_id \<notin> fst ` set (bids s) \<Longrightarrow> client_order_id \<notin> fst ` set (asks s) \<Longrightarrow>
   on_order_filled_message MINIMUM_BID MAXIMUM_ASK s client_order_id price volume = Some s"
  by (simp add: on_order_filled_message_def)

lemma popleft_old_later:
  "c \<le> c' \<Longrightarrow> popleft_old c' (popleft_old c w) = popleft_old c' w"
  by (induction w) auto

lemma popleft_old_replicate:
  "popleft_old c (replicate n x) = (if x < c - 1.01 then [] else replicate n x)"
  by (induction n) auto

text \<open>
  The wait, exactly: \<open>k\<close> checks are refused, each followed by a sleep of a tenth of a
  second, and the next check is admitted and stamps the deque.
\<close>

lemma wait_message_limit_exact_bounded:
  "\<forall>e\<in>set (order_timestamps s). e < clock s + real n / 10 - 1.01 \<Longrightarrow>
   \<exists>k. (\<forall>j<k. length (popleft_old (clock s + real j / 10) (order_timestamps s)) = 50)
     \<and> length (popleft_old (clock s + real k / 10) (order_timestamps s)) \<noteq> 50
     \<and> wait_message_limit s =
         Some (s\<lparr>order_timestamps :=
                    popleft_old (clock s + real k / 10) (order_timestamps s)
                    @ [clock s + real k / 10],
                  clock := clock s + real k / 10\<rparr>)"
proof (induction n arbitrary: s)
  case 0
  then have e: "popleft_old (clock s) (order_timestamps s) = []"
    by (intro popleft_old_all_old) simp
  have "wait_message_limit s = Some (s\<lparr>order_timestamps := [clock s]\<rparr>)"
    by (subst wait_message_limit.simps) (simp add: check_message_limit_def check_window_def e)
  then have "(\<forall>j<(0::nat). length (popleft_old (clock s + real j / 10) (order_timestamps s)) = 50)
     \<and> length (popleft_old (clock s + real (0::nat) / 10) (order_timestamps s)) \<noteq> 50
     \<and> wait_message_limit s =
         Some (s\<lparr>order_timestamps :=
                    popleft_old (clock s + real (0::nat) / 10) (order_timestamps s)
                    @ [clock s + real (0::nat) / 10],
                  clock := clock s + real (0::nat) / 10\<rparr>)"
    by (simp add: e)
  then show ?case by blast
next
  case (Suc n)
  define w1 where "w1 = popleft_old (clock s) (order_timestamps s)"
  show ?case
  proof (cases "length w1 = 50")
    case False
    then have "wait_message_limit s = Some (s\<lparr>order_timestamps := w1 @ [clock s]\<rparr>)"
      unfolding w1_def
      by (subst wait_message_limit.simps) (simp add: check_message_limit_def check_window_def)
    with False have "(\<forall>j<(0::nat). length (popleft_old (clock s + real j / 10) (order_timestamps s)) = 50)
     \<and> length (popleft_old (clock s + real (0::nat) / 10) (order_timestamps s)) \<noteq> 50
     \<and> wait_message_limit s =
         Some (s\<lparr>order_timestamps :=
                    popleft_old (clock s + real (0::nat) / 10) (order_timestamps s)
                    @ [clock s + real (0::nat) / 10],
                  clock := clock s + real (0::nat) / 10\<rparr>)"
      by (simp add: w1_def)
    then show ?thesis by blast
  next
    case True
    define s2 where "s2 = time_sleep 0.1 (s\<lparr>order_timestamps := w1\<rparr>)"
    have step: "wait_message_limit s = wait_message_limit s2"
      using True unfolding w1_def s2_def
      by (subst wait_message_limit.simps) (simp add: check_message_limit_def check_window_def)
    have s2: "order_timestamps s2 = w1" "clock s2 = clock s + 1 / 10"
      by (simp_all add: s2_def time_sleep_def)
    have "set w1 \<subseteq> set (order_timestamps s)" unfolding w1_def by (rule popleft_old_subset)
    then have "\<forall>e\<in>set (order_timestamps s2). e < clock s2 + real n / 10 - 1.01"
      using Suc.prems unfolding s2 by (auto simp: field_simps)
    from Suc.IH [OF this] obtain k where k:
      "\<forall>j<k. length (popleft_old (clock s2 + real j / 10) (order_timestamps s2)) = 50"
      "length (popleft_old (clock s2 + real k / 10) (order_timestamps s2)) \<noteq> 50"
      "wait_message_limit s2 =
         Some (s2\<lparr>order_timestamps :=
                    popleft_old (clock s2 + real k / 10) (order_timestamps s2)
                    @ [clock s2 + real k / 10],
                  clock := clock s2 + real k / 10\<rparr>)"
      by blast
    have t: "clock s2 + real j / 10 = clock s + real (Suc j) / 10" for j
      unfolding s2 by (simp add: field_simps)
    have p: "popleft_old (clock s + real (Suc j) / 10) (order_timestamps s2)
             = popleft_old (clock s + real (Suc j) / 10) (order_timestamps s)" for j
      unfolding s2 w1_def by (rule popleft_old_later) simp
    have 1: "\<forall>j<Suc k. length (popleft_old (clock s + real j / 10) (order_timestamps s)) = 50"
    proof (intro allI impI)
      fix j assume j: "j < Suc k"
      show "length (popleft_old (clock s + real j / 10) (order_timestamps s)) = 50"
      proof (cases j)
        case 0
        with True show ?thesis by (simp add: w1_def)
      next
        case (Suc i)
        with j have "i < k" by simp
        with k(1) have "length (popleft_old (clock s2 + real i / 10) (order_timestamps s2)) = 50"
          by blast
        then show ?thesis unfolding Suc t p .
      qed
    qed
    have 2: "length (popleft_old (clock s + real (Suc k) / 10) (order_timestamps s)) \<noteq> 50"
      using k(2) unfolding t p .
    have 3: "wait_message_limit s =
         Some (s\<lparr>order_timestamps :=
                    popleft_old (clock s + real (Suc k) / 10) (order_timestamps s)
                    @ [clock s + real (Suc k) / 10],
                  clock := clock s + real (Suc k) / 10\<rparr>)"
      unfolding step k(3) t p by (simp add: s2_def time_sleep_def)
    from 1 2 3 show ?thesis by blast
  qed
qed

lemma wait_message_limit_exact:
  "\<exists>k. (\<forall>j<k. length (popleft_old (clock s + real j / 10) (order_timestamps s)) = 50)
     \<and> length (popleft_old (clock s + real k / 10) (order_timestamps s)) \<noteq> 50
     \<and> wait_message_limit s =
         Some (s\<lparr>order_timestamps :=
                    popleft_old (clock s + real k / 10) (order_timestamps s)
                    @ [clock s + real k / 10],
                  clock := clock s + real k / 10\<rparr>)"
  using timestamps_bounded [of "order_timestamps s" "clock s"] wait_message_limit_exact_bounded
  by blast


text \<open>
  Claim C2. When \<open>on_order_filled_message\<close> is called for an order that is recorded in
  \<open>bids\<close> or \<open>asks\<close> (the orders inserted on the ETF), the handler returns and the
  state it leaves is this one. The position and \<open>delta\<close> have moved by the filled
  volume. The rate limit has refused \<open>k\<close> checks, each followed by a sleep of a tenth of
  a second, and has admitted the next one, at the clock reading \<open>clock s + k / 10\<close>: the
  deque is the pruned one with that reading appended, so the hedge has passed the
  admission and was not let through without it. Then exactly one hedge order has been
  handed to the transport, under a new identifier recorded in the hedge set of its side:
  a sell for a filled bid, a buy for a filled ask, for the filled volume. The wait ends
  whatever the deque holds, so the hedge is never dropped.
\<close>

theorem on_order_filled_sends_one_hedge:
  assumes "client_order_id \<in> fst ` set (bids s) \<union> fst ` set (asks s)"
  shows "\<exists>k. (\<forall>j<k. length (popleft_old (clock s + real j / 10) (order_timestamps s)) = 50)
     \<and> length (popleft_old (clock s + real k / 10) (order_timestamps s)) \<noteq> 50
     \<and> on_order_filled_message MINIMUM_BID MAXIMUM_ASK s client_order_id price volume =
         Some (if client_order_id \<in> fst ` set (bids s)
               then s\<lparr>position := position s + volume, delta := delta s + volume,
                       order_timestamps :=
                         popleft_old (clock s + real k / 10) (order_timestamps s)
                         @ [clock s + real k / 10],
                       clock := clock s + real k / 10,
                       order_ids := order_ids s + 1,
                       hedge_ask := insert (order_ids s) (hedge_ask s),
                       sent := sent s @
                         [HedgeOrder (order_ids s) ASK (MIN_BID_NEAREST_TICK MINIMUM_BID) volume]\<rparr>
               else s\<lparr>position := position s - volume, delta := delta s - volume,
                       order_timestamps :=
                         popleft_old (clock s + real k / 10) (order_timestamps s)
                         @ [clock s + real k / 10],
                       clock := clock s + real k / 10,
                       order_ids := order_ids s + 1,
                       hedge_bid := insert (order_ids s) (hedge_bid s),
                       sent := sent s @
                         [HedgeOrder (order_ids s) BID (MAX_ASK_NEAREST_TICK MAXIMUM_ASK) volume]\<rparr>)"
proof (cases "client_order_id \<in> fst ` set (bids s)")
  case True
  define s1 where "s1 = s\<lparr>position := position s + volume, delta := delta s + volume\<rparr>"
  have f: "clock s1 = clock s" "order_timestamps s1 = order_timestamps s" by (simp_all add: s1_def)
  from wait_message_limit_exact [of s1] obtain k where k:
    "\<forall>j<k. length (popleft_old (clock s + real j / 10) (order_timestamps s)) = 50"
    "length (popleft_old (clock s + real k / 10) (order_timestamps s)) \<noteq> 50"
    "wait_message_limit s1 =
         Some (s1\<lparr>order_timestamps :=
                    popleft_old (clock s + real k / 10) (order_timestamps s)
                    @ [clock s + real k / 10],
                  clock := clock s + real k / 10\<rparr>)"
    unfolding f by blast
  have "on_order_filled_message MINIMUM_BID MAXIMUM_ASK s client_order_id price volume =
         Some (s\<lparr>position := position s + volume, delta := delta s + volume,
                       order_timestamps :=
                         popleft_old (clock s + real k / 10) (order_timestamps s)
                         @ [clock s + real k / 10],
                       clock := clock s + real k / 10,
                       order_ids := order_ids s + 1,
                       hedge_ask := insert (order_ids s) (hedge_ask s),
                       sent := sent s @
                         [HedgeOrder (order_ids s) ASK (MIN_BID_NEAREST_TICK MINIMUM_BID) volume]\<rparr>)"
    using True k(3)
    by (simp add: on_order_filled_message_def send_hedge_order_def Let_def s1_def)
  with k(1,2) True show ?thesis by auto
next
  case False
  with assms have a: "client_order_id \<in> fst ` set (asks s)" by blast
  define s1 where "s1 = s\<lparr>position := position s - volume, delta := delta s - volume\<rparr>"
  have f: "clock s1 = clock s" "order_timestamps s1 = order_timestamps s" by (simp_all add: s1_def)
  from wait_message_limit_exact [of s1] obtain k where k:
    "\<forall>j<k. length (popleft_old (clock s + real j / 10) (order_timestamps s)) = 50"
    "length (popleft_old (clock s + real k / 10) (order_timestamps s)) \<noteq> 50"
    "wait_message_limit s1 =
         Some (s1\<lparr>order_timestamps :=
                    popleft_old (clock s + real k / 10) (order_timestamps s)
                    @ [clock s + real k / 10],
                  clock := clock s + real k / 10\<rparr>)"
    unfolding f by blast
  have "on_order_filled_message MINIMUM_BID MAXIMUM_ASK s client_order_id price volume =
         Some (s\<lparr>position := position s - volume, delta := delta s - volume,
                       order_timestamps :=
                         popleft_old (clock s + real k / 10) (order_timestamps s)
                         @ [clock s + real k / 10],
                       clock := clock s + real k / 10,
                       order_ids := order_ids s + 1,
                       hedge_bid := insert (order_ids s) (hedge_bid s),
                       sent := sent s @
                         [HedgeOrder (order_ids s) BID (MAX_ASK_NEAREST_TICK MAXIMUM_ASK) volume]\<rparr>)"
    using False a k(3)
    by (simp add: on_order_filled_message_def send_hedge_order_def Let_def s1_def)
  with k(1,2) False show ?thesis by auto
qed

text \<open>
  With the deque full of 50 timestamps of the current instant, the handler sleeps eleven
  times: the hedge leaves at clock 1.1, stamped in the deque.
\<close>

theorem on_order_filled_sends_one_hedge_witness:
  "(1::int) \<in> fst ` set (bids ((init 0)\<lparr>order_ids := 2, bids := [(1, 9900)], order_timestamps := replicate 50 0\<rparr>))
            \<union> fst ` set (asks ((init 0)\<lparr>order_ids := 2, bids := [(1, 9900)], order_timestamps := replicate 50 0\<rparr>))
   \<and> on_order_filled_message 1 2147483647
        ((init 0)\<lparr>order_ids := 2, bids := [(1, 9900)], order_timestamps := replicate 50 0\<rparr>)
        1 9900 20
     = Some \<lparr>order_ids = 3, bids = [(1, 9900)], asks = [], hedge_bid = {}, hedge_ask = {2},
             msg_seq = 0, order_timestamps = [11 / 10], position = 20, future_bid = 0,
             future_ask = 0, delta = 20, clock = 11 / 10,
             sent = [HedgeOrder 2 ASK 100 20]\<rparr>"
proof -
  define s0 where "s0 = ((init 0)\<lparr>order_ids := 2, bids := [(1, 9900)], order_timestamps := replicate 50 0\<rparr>)"
  have h: "(1::int) \<in> fst ` set (bids s0) \<union> fst ` set (asks s0)" by (simp add: s0_def)
  have v: "clock s0 = 0" "order_timestamps s0 = replicate 50 0" by (simp_all add: s0_def init_def)
  have hb: "(1::int) \<in> fst ` set (bids s0)" by (simp add: s0_def)
  from on_order_filled_sends_one_hedge [OF h, of 1 2147483647 9900 20] obtain k where k0:
    "\<forall>j<k. length (popleft_old (clock s0 + real j / 10) (order_timestamps s0)) = 50"
    "length (popleft_old (clock s0 + real k / 10) (order_timestamps s0)) \<noteq> 50"
    "on_order_filled_message 1 2147483647 s0 1 9900 20 =
         Some (if (1::int) \<in> fst ` set (bids s0)
               then s0\<lparr>position := position s0 + 20, delta := delta s0 + 20,
                       order_timestamps :=
                         popleft_old (clock s0 + real k / 10) (order_timestamps s0)
                         @ [clock s0 + real k / 10],
                       clock := clock s0 + real k / 10,
                       order_ids := order_ids s0 + 1,
                       hedge_ask := insert (order_ids s0) (hedge_ask s0),
                       sent := sent s0 @
                         [HedgeOrder (order_ids s0) ASK (MIN_BID_NEAREST_TICK 1) 20]\<rparr>
               else s0\<lparr>position := position s0 - 20, delta := delta s0 - 20,
                       order_timestamps :=
                         popleft_old (clock s0 + real k / 10) (order_timestamps s0)
                         @ [clock s0 + real k / 10],
                       clock := clock s0 + real k / 10,
                       order_ids := order_ids s0 + 1,
                       hedge_bid := insert (order_ids s0) (hedge_bid s0),
                       sent := sent s0 @
                         [HedgeOrder (order_ids s0) BID (MAX_ASK_NEAREST_TICK 2147483647) 20]\<rparr>)"
    by blast
  have k: "\<forall>j<k. length (popleft_old (real j / 10) (replicate 50 0)) = 50"
    "length (popleft_old (real k / 10) (replicate 50 0)) \<noteq> 50"
    using k0(1,2) unfolding v by simp_all
  have k3: "on_order_filled_message 1 2147483647 s0 1 9900 20 =
         Some (s0\<lparr>position := position s0 + 20, delta := delta s0 + 20,
                       order_timestamps := popleft_old (real k / 10) (replicate 50 0) @ [real k / 10],
                       clock := real k / 10,
                       order_ids := order_ids s0 + 1,
                       hedge_ask := insert (order_ids s0) (hedge_ask s0),
                       sent := sent s0 @ [HedgeOrder (order_ids s0) ASK (MIN_BID_NEAREST_TICK 1) 20]\<rparr>)"
    using k0(3) hb unfolding v by simp
  from k(2) have "101 / 100 < real k / 10" by (simp add: popleft_old_replicate split: if_splits)
  then have "101 < real (10 * k)" by simp
  then have "101 < 10 * k" by (simp only: of_nat_less_iff [symmetric, where 'a = real] of_nat_numeral)
  then have lo: "11 \<le> k" by simp
  have hi: "k \<le> 11"
  proof (rule ccontr)
    assume "\<not> k \<le> 11"
    then have "11 < k" by simp
    with k(1) have "length (popleft_old (real (11::nat) / 10) (replicate 50 0)) = 50" by blast
    then show False by (simp add: popleft_old_replicate)
  qed
  from lo hi have k11: "k = 11" by simp
  have "on_order_filled_message 1 2147483647 s0 1 9900 20
     = Some \<lparr>order_ids = 3, bids = [(1, 9900)], asks = [], hedge_bid = {}, hedge_ask = {2},
             msg_seq = 0, order_timestamps = [11 / 10], position = 20, future_bid = 0,
             future_ask = 0, delta = 20, clock = 11 / 10,
             sent = [HedgeOrder 2 ASK 100 20]\<rparr>"
    unfolding k3 k11
    by (simp add: popleft_old_replicate s0_def init_def MIN_BID_NEAREST_TICK_def
          TICK_SIZE_IN_CENTS_def)
  with h show ?thesis unfolding s0_def by blast
qed

text \<open>
  \<open>tick_floor\<close> and \<open>tick_ceiling\<close> are the nearest multiples of the tick below and
  above.
\<close>

lemma tick_floor_bounds:
  "tick_floor x \<le> x \<and> x < tick_floor x + TICK_SIZE_IN_CENTS \<and> TICK_SIZE_IN_CENTS dvd tick_floor x"
  unfolding tick_floor_def TICK_SIZE_IN_CENTS_def by presburger

lemma tick_ceiling_bounds:
  "x \<le> tick_ceiling x \<and> tick_ceiling x < x + TICK_SIZE_IN_CENTS \<and> TICK_SIZE_IN_CENTS dvd tick_ceiling x"
  unfolding tick_ceiling_def TICK_SIZE_IN_CENTS_def by presburger

text \<open>
  Claim C3, as amended. The hedge sell sent on the fill of a bid has the price
  \<open>(MINIMUM_BID + TICK) // TICK * TICK\<close>, which is the floor of \<open>MINIMUM_BID\<close> to the
  tick plus one tick (the least multiple of the tick above \<open>MINIMUM_BID\<close>), and the hedge
  buy sent on the fill of an ask has the price \<open>MAXIMUM_ASK // TICK * TICK\<close>, the floor
  of \<open>MAXIMUM_ASK\<close> to the tick.
\<close>

theorem hedge_price_on_fill:
  assumes "client_order_id \<in> fst ` set (bids s) \<union> fst ` set (asks s)"
  shows "\<exists>s'. on_order_filled_message MINIMUM_BID MAXIMUM_ASK s client_order_id price volume = Some s'
         \<and> sent s' = sent s @
             [if client_order_id \<in> fst ` set (bids s)
              then HedgeOrder (order_ids s) ASK (tick_floor MINIMUM_BID + TICK_SIZE_IN_CENTS) volume
              else HedgeOrder (order_ids s) BID (tick_floor MAXIMUM_ASK) volume]"
proof (cases "client_order_id \<in> fst ` set (bids s)")
  case True
  have "MIN_BID_NEAREST_TICK MINIMUM_BID = tick_floor MINIMUM_BID + TICK_SIZE_IN_CENTS"
    by (simp add: MIN_BID_NEAREST_TICK_def tick_floor_def TICK_SIZE_IN_CENTS_def)
  with on_order_filled_bid [OF True, of MINIMUM_BID MAXIMUM_ASK price volume]
  show ?thesis using True by auto
next
  case False
  with assms have a: "client_order_id \<in> fst ` set (asks s)" by blast
  have "MAX_ASK_NEAREST_TICK MAXIMUM_ASK = tick_floor MAXIMUM_ASK"
    by (simp add: MAX_ASK_NEAREST_TICK_def tick_floor_def)
  with on_order_filled_ask [OF False a, of MINIMUM_BID MAXIMUM_ASK price volume]
  show ?thesis using False by auto
qed

theorem hedge_price_on_fill_witness:
  "(1::int) \<in> fst ` set (bids ((init 0)\<lparr>order_ids := 2, bids := [(1, 9900)]\<rparr>))
            \<union> fst ` set (asks ((init 0)\<lparr>order_ids := 2, bids := [(1, 9900)]\<rparr>))
   \<and> (\<exists>s'. on_order_filled_message 1 2147483647
           ((init 0)\<lparr>order_ids := 2, bids := [(1, 9900)]\<rparr>) 1 9900 20 = Some s'
       \<and> sent s' = [HedgeOrder 2 ASK 100 20])"
proof -
  have h: "(1::int) \<in> fst ` set (bids ((init 0)\<lparr>order_ids := 2, bids := [(1, 9900)]\<rparr>))
            \<union> fst ` set (asks ((init 0)\<lparr>order_ids := 2, bids := [(1, 9900)]\<rparr>))"
    by simp
  show ?thesis
    using hedge_price_on_fill [OF h, of 1 2147483647 9900 20] h
    by (simp add: init_def tick_floor_def TICK_SIZE_IN_CENTS_def)
qed

text \<open>
  Claim C3 as stated fails. With \<open>MINIMUM_BID = 1\<close> and \<open>MAXIMUM_ASK = 2147483647\<close>
  the hedge sell goes out at 100, which is not the floor of 1 to the tick (that is 0), and
  the hedge buy goes out at 2147483600, which is not the ceiling of 2147483647 to the tick
  (that is 2147483700).
\<close>

theorem hedge_price_counterexample:
  "map_option sent (on_order_filled_message 1 2147483647
       ((init 0)\<lparr>order_ids := 3, bids := [(1, 9900)], asks := [(2, 10300)]\<rparr>) 1 9900 20)
     = Some [HedgeOrder 3 ASK 100 20]
   \<and> 100 \<noteq> tick_floor 1
   \<and> map_option sent (on_order_filled_message 1 2147483647
       ((init 0)\<lparr>order_ids := 3, bids := [(1, 9900)], asks := [(2, 10300)]\<rparr>) 2 10300 20)
     = Some [HedgeOrder 3 BID 2147483600 20]
   \<and> 2147483600 \<noteq> tick_ceiling 2147483647"
proof -
  define s0 where "s0 = (init 0)\<lparr>order_ids := 3, bids := [(1, 9900)], asks := [(2, 10300)]\<rparr>"
  have b: "(1::int) \<in> fst ` set (bids s0)" by (simp add: s0_def)
  have a: "(2::int) \<notin> fst ` set (bids s0)" "(2::int) \<in> fst ` set (asks s0)" by (simp_all add: s0_def)
  have 1: "map_option sent (on_order_filled_message 1 2147483647 s0 1 9900 20)
           = Some [HedgeOrder 3 ASK 100 20]"
    using on_order_filled_bid [OF b, of 1 2147483647 9900 20]
    by (auto simp: s0_def init_def MIN_BID_NEAREST_TICK_def TICK_SIZE_IN_CENTS_def)
  have 2: "map_option sent (on_order_filled_message 1 2147483647 s0 2 10300 20)
           = Some [HedgeOrder 3 BID 2147483600 20]"
    using on_order_filled_ask [OF a, of 1 2147483647 10300 20]
    by (auto simp: s0_def init_def MAX_ASK_NEAREST_TICK_def TICK_SIZE_IN_CENTS_def)
  have 3: "100 \<noteq> tick_floor 1" "2147483600 \<noteq> tick_ceiling 2147483647"
    by (simp_all add: tick_floor_def tick_ceiling_def TICK_SIZE_IN_CENTS_def)
  show ?thesis using 1 2 3 unfolding s0_def by blast
qed

subsection \<open>The send wrappers\<close>

lemma check_message_limit_eq:
  "check_message_limit s =
     (if has_room s
      then (True, s\<lparr>order_timestamps := popleft_old (clock s) (order_timestamps s) @ [clock s]\<rparr>)
      else (False, s\<lparr>order_timestamps := popleft_old (clock s) (order_timestamps s)\<rparr>))"
  by (simp add: check_message_limit_def check_window_def has_room_def)

lemma send_bid_order_eq:
  "send_bid_order s price volume type =
     (if has_room s
      then (True, s\<lparr>order_timestamps := popleft_old (clock s) (order_timestamps s) @ [clock s],
                     order_ids := order_ids s + 1,
                     sent := sent s @ [InsertOrder (order_ids s) BUY price volume type],
                     bids := AList.update (order_ids s) price (bids s)\<rparr>)
      else (False, s\<lparr>order_timestamps := popleft_old (clock s) (order_timestamps s)\<rparr>))"
  by (simp add: send_bid_order_def check_message_limit_eq Let_def)

lemma send_ask_order_eq:
  "send_ask_order s price volume type =
     (if has_room s
      then (True, s\<lparr>order_timestamps := popleft_old (clock s) (order_timestamps s) @ [clock s],
                     order_ids := order_ids s + 1,
                     sent := sent s @ [InsertOrder (order_ids s) SELL price volume type],
                     asks := AList.update (order_ids s) price (asks s)\<rparr>)
      else (False, s\<lparr>order_timestamps := popleft_old (clock s) (order_timestamps s)\<rparr>))"
  by (simp add: send_ask_order_def check_message_limit_eq Let_def)

lemma send_cancel_order_eq:
  "send_cancel_order s order_id =
     (if has_room s
      then (True, s\<lparr>order_timestamps := popleft_old (clock s) (order_timestamps s) @ [clock s],
                     sent := sent s @ [CancelOrder order_id]\<rparr>)
      else (False, s\<lparr>order_timestamps := popleft_old (clock s) (order_timestamps s)\<rparr>))"
  by (simp add: send_cancel_order_def check_message_limit_eq)

lemma core_send_bid_order [simp]: "core (snd (send_bid_order s price volume type)) = core s"
  by (simp add: send_bid_order_eq core_def)

lemma core_send_ask_order [simp]: "core (snd (send_ask_order s price volume type)) = core s"
  by (simp add: send_ask_order_eq core_def)

lemma core_send_cancel_order [simp]: "core (snd (send_cancel_order s order_id)) = core s"
  by (simp add: send_cancel_order_eq core_def)

lemma core_cancel_where [simp]: "core (cancel_where P items s) = core s"
  by (induction P items s rule: cancel_where.induct) simp_all

lemma core_trim_orders [simp]: "core (trim_orders s) = core s"
  by (simp add: trim_orders_def Let_def)

lemma core_place_asks [simp]: "core (place_asks prices n s) = core s"
  by (induction prices n s rule: place_asks.induct) simp_all

lemma core_place_bids [simp]: "core (place_bids prices n s) = core s"
  by (induction prices n s rule: place_bids.induct) simp_all

lemma core_clear_book:
  "clear_book s ap bp av bv = Inr s' \<Longrightarrow> core s' = core s"
  by (auto simp: clear_book_def Let_def split: sum.splits)

lemma core_handle_arbitrage:
  "handle_arbitrage s ap av bp bv = Inr s' \<Longrightarrow> core s' = core s"
  by (auto simp: handle_arbitrage_def Let_def split: sum.splits if_splits)

lemma core_handle_market_making:
  "handle_market_making s bp bv ap av = Inr s' \<Longrightarrow> core s' = core s"
  by (auto simp: handle_market_making_def Let_def split: sum.splits dest!: core_clear_book)

lemma core_fields:
  "core s' = core s \<Longrightarrow>
     position s' = position s \<and> delta s' = delta s \<and> msg_seq s' = msg_seq s
     \<and> future_bid s' = future_bid s \<and> future_ask s' = future_ask s \<and> clock s' = clock s
     \<and> hedge_bid s' = hedge_bid s \<and> hedge_ask s' = hedge_ask s"
  by (simp add: core_def)


subsection \<open>The sequence gate\<close>

lemma msg_seq_trim_orders [simp]: "msg_seq (trim_orders s) = msg_seq s"
  using core_trim_orders [of s] by (simp add: core_def)

lemma msg_seq_handle_arbitrage:
  "handle_arbitrage s ap av bp bv = Inr s' \<Longrightarrow> msg_seq s' = msg_seq s"
  by (drule core_handle_arbitrage) (simp add: core_def)

lemma msg_seq_handle_market_making:
  "handle_market_making s bp bv ap av = Inr s' \<Longrightarrow> msg_seq s' = msg_seq s"
  by (drule core_handle_market_making) (simp add: core_def)

lemma on_order_book_update_msg_seq:
  assumes "on_order_book_update_message s i n ap av bp bv = Inr s1"
  shows "msg_seq s1 = max (msg_seq s) n"
  using assms
  by (auto simp: on_order_book_update_message_def Let_def
           split: sum.splits if_splits
           dest!: msg_seq_handle_arbitrage msg_seq_handle_market_making)

text \<open>
  Claim C6, as amended. A snapshot whose sequence number is below the running maximum is
  discarded: the handler returns the state as it was and sends nothing.
\<close>

theorem stale_snapshot_is_discarded:
  assumes "sequence_number < msg_seq s"
  shows "on_order_book_update_message s instrument sequence_number
           ask_prices ask_volumes bid_prices bid_volumes = Inr s"
  using assms by (simp add: on_order_book_update_message_def Let_def max_def)

theorem stale_snapshot_is_discarded_witness:
  "(1::int) < msg_seq ((init 0)\<lparr>msg_seq := 2\<rparr>)
   \<and> on_order_book_update_message ((init 0)\<lparr>msg_seq := 2\<rparr>) ETF 1
        [9900, 10000, 10100, 10200, 10300] [15, 10, 10, 10, 10]
        [9800, 9700, 9600, 9500, 9400] [10, 10, 10, 10, 10]
      = Inr ((init 0)\<lparr>msg_seq := 2\<rparr>)"
proof -
  have h: "(1::int) < msg_seq ((init 0)\<lparr>msg_seq := 2\<rparr>)" by simp
  show ?thesis
    using stale_snapshot_is_discarded [OF h] h by blast
qed

text \<open>
  Claim C6 as stated fails. After a snapshot of the future (bid 10000, ask 10100), an ETF
  snapshot with sequence number 2 and best ask 9900 for 15 lots makes the trader send one
  fill-and-kill buy. The same snapshot delivered a second time equals the running maximum,
  passes the gate and makes the trader send a second buy.
\<close>

theorem duplicate_snapshot_counterexample:
  "map_option sent (run 1 2147483647
      [OrderBookUpdate FUTURE 1 [10100, 10200, 10300, 10400, 10500] [10, 10, 10, 10, 10]
                                [10000, 9900, 9800, 9700, 9600] [10, 10, 10, 10, 10],
       OrderBookUpdate ETF 2 [9900, 10000, 10100, 10200, 10300] [15, 10, 10, 10, 10]
                             [9800, 9700, 9600, 9500, 9400] [10, 10, 10, 10, 10]]
      (init 0))
     = Some [InsertOrder 1 BUY 9900 15 FILL_AND_KILL]
   \<and> map_option sent (run 1 2147483647
      [OrderBookUpdate FUTURE 1 [10100, 10200, 10300, 10400, 10500] [10, 10, 10, 10, 10]
                                [10000, 9900, 9800, 9700, 9600] [10, 10, 10, 10, 10],
       OrderBookUpdate ETF 2 [9900, 10000, 10100, 10200, 10300] [15, 10, 10, 10, 10]
                             [9800, 9700, 9600, 9500, 9400] [10, 10, 10, 10, 10],
       OrderBookUpdate ETF 2 [9900, 10000, 10100, 10200, 10300] [15, 10, 10, 10, 10]
                             [9800, 9700, 9600, 9500, 9400] [10, 10, 10, 10, 10]]
      (init 0))
     = Some [InsertOrder 1 BUY 9900 15 FILL_AND_KILL, InsertOrder 2 BUY 9900 15 FILL_AND_KILL]"
  by (simp add: on_order_book_update_message_def handle_arbitrage_def trim_orders_def
        send_bid_order_eq has_room_def init_def py_index_def ARBITRAGE_LIMIT_def Let_def)

text \<open>
  Claim C10. The handler keeps one running maximum for both instruments: once a snapshot
  with sequence number \<open>n\<close> has been handled, for either instrument, a snapshot with a
  lower sequence number is discarded whatever its instrument, also when it is the first
  snapshot of that instrument.
\<close>

theorem sequence_gate_is_shared:
  assumes "on_order_book_update_message s i n ap av bp bv = Inr s1" and "m < n"
  shows "on_order_book_update_message s1 j m ap' av' bp' bv' = Inr s1"
proof -
  have "msg_seq s1 = max (msg_seq s) n" using assms(1) by (rule on_order_book_update_msg_seq)
  with assms(2) have "m < msg_seq s1" by simp
  then show ?thesis by (simp add: on_order_book_update_message_def Let_def max_def)
qed

theorem sequence_gate_is_shared_witness:
  "on_order_book_update_message (init 0) FUTURE 5
       [10100, 10200, 10300, 10400, 10500] [10, 10, 10, 10, 10]
       [10000, 9900, 9800, 9700, 9600] [10, 10, 10, 10, 10]
     = Inr ((init 0)\<lparr>msg_seq := 5, future_bid := 10000, future_ask := 10100\<rparr>)
   \<and> (3::int) < 5
   \<and> on_order_book_update_message
        ((init 0)\<lparr>msg_seq := 5, future_bid := 10000, future_ask := 10100\<rparr>) ETF 3
        [9900, 10000, 10100, 10200, 10300] [15, 10, 10, 10, 10]
        [9800, 9700, 9600, 9500, 9400] [10, 10, 10, 10, 10]
     = Inr ((init 0)\<lparr>msg_seq := 5, future_bid := 10000, future_ask := 10100\<rparr>)"
proof -
  have h1: "on_order_book_update_message (init 0) FUTURE 5
       [10100, 10200, 10300, 10400, 10500] [10, 10, 10, 10, 10]
       [10000, 9900, 9800, 9700, 9600] [10, 10, 10, 10, 10]
     = Inr ((init 0)\<lparr>msg_seq := 5, future_bid := 10000, future_ask := 10100\<rparr>)"
    by (simp add: on_order_book_update_message_def trim_orders_def init_def py_index_def Let_def)
  have h2: "(3::int) < 5" by simp
  show ?thesis
    using sequence_gate_is_shared [OF h1 h2] h1 h2 by blast
qed

subsection \<open>Arbitrage\<close>

lemma py_index_0: "xs \<noteq> [] \<Longrightarrow> py_index xs 0 = Inr (hd xs)"
  by (cases xs) (simp_all add: py_index_def)

text \<open>
  Claim C4. Given non-empty price and volume lists, \<open>handle_arbitrage\<close> returns, leaves
  the position alone, and hands to the send wrapper at most one order. When the best ask is
  below the future's bid, that order is a fill-and-kill buy at the best ask for
  \<open>min(best ask volume, ARBITRAGE_LIMIT - position)\<close>, sent only when this volume is
  positive. Otherwise, when the best bid is above the future's ask, it is a fill-and-kill
  sell at the best bid for \<open>min(best bid volume, position + ARBITRAGE_LIMIT)\<close>, sent only
  when positive. The wrapper passes the order on unless the rate limit refuses it. Hence
  a buy that fills completely leaves the position at most \<open>ARBITRAGE_LIMIT\<close> and a sell
  at least \<open>-ARBITRAGE_LIMIT\<close>.
\<close>

theorem handle_arbitrage_sizing:
  assumes "ask_prices \<noteq> []" "ask_volumes \<noteq> []" "bid_prices \<noteq> []" "bid_volumes \<noteq> []"
  shows "\<exists>s'. handle_arbitrage s ask_prices ask_volumes bid_prices bid_volumes = Inr s'
     \<and> position s' = position s
     \<and> sent s' = sent s @
         (if hd ask_prices < future_bid s then
            (if 0 < min (hd ask_volumes) (ARBITRAGE_LIMIT - position s) \<and> has_room s
             then [InsertOrder (order_ids s) BUY (hd ask_prices)
                     (min (hd ask_volumes) (ARBITRAGE_LIMIT - position s)) FILL_AND_KILL]
             else [])
          else if hd bid_prices > future_ask s then
            (if 0 < min (hd bid_volumes) (position s + ARBITRAGE_LIMIT) \<and> has_room s
             then [InsertOrder (order_ids s) SELL (hd bid_prices)
                     (min (hd bid_volumes) (position s + ARBITRAGE_LIMIT)) FILL_AND_KILL]
             else [])
          else [])
     \<and> (\<forall>oid p v l. InsertOrder oid BUY p v l \<in> set (sent s') - set (sent s)
            \<longrightarrow> position s + v \<le> ARBITRAGE_LIMIT)
     \<and> (\<forall>oid p v l. InsertOrder oid SELL p v l \<in> set (sent s') - set (sent s)
            \<longrightarrow> - ARBITRAGE_LIMIT \<le> position s - v)"
  using assms
  by (auto simp: handle_arbitrage_def py_index_0 Let_def send_bid_order_eq send_ask_order_eq)

theorem handle_arbitrage_sizing_witness:
  "[9900, 10000, 10100, 10200, 10300] \<noteq> ([]::int list)
   \<and> [15, 10, 10, 10, 10] \<noteq> ([]::int list)
   \<and> [9800, 9700, 9600, 9500, 9400] \<noteq> ([]::int list)
   \<and> [10, 10, 10, 10, 10] \<noteq> ([]::int list)
   \<and> (\<exists>s'. handle_arbitrage ((init 0)\<lparr>future_bid := 10000, future_ask := 10100\<rparr>)
              [9900, 10000, 10100, 10200, 10300] [15, 10, 10, 10, 10]
              [9800, 9700, 9600, 9500, 9400] [10, 10, 10, 10, 10] = Inr s'
          \<and> position s' = 0
          \<and> sent s' = [InsertOrder 1 BUY 9900 15 FILL_AND_KILL])"
proof -
  have h: "[9900, 10000, 10100, 10200, 10300] \<noteq> ([]::int list)"
    "[15, 10, 10, 10, 10] \<noteq> ([]::int list)"
    "[9800, 9700, 9600, 9500, 9400] \<noteq> ([]::int list)"
    "[10, 10, 10, 10, 10] \<noteq> ([]::int list)"
    by simp_all
  show ?thesis
    using handle_arbitrage_sizing [OF h, of "(init 0)\<lparr>future_bid := 10000, future_ask := 10100\<rparr>"]
    by (auto simp: init_def has_room_def ARBITRAGE_LIMIT_def)
qed

subsection \<open>Before the first snapshot of the future\<close>

lemma on_order_book_update_etf_core:
  assumes "on_order_book_update_message s ETF n ap av bp bv = Inr s'"
  shows "core s' = core (s\<lparr>msg_seq := max (msg_seq s) n\<rparr>)"
  using assms
  by (auto simp: on_order_book_update_message_def Let_def
           split: sum.splits if_splits
           dest!: core_handle_arbitrage core_handle_market_making)

lemma deliver_keeps_future:
  assumes "\<not> is_future_update e" "deliver lo hi e s = Some s'"
  shows "future_bid s' = future_bid s \<and> future_ask s' = future_ask s"
proof (cases e)
  case (OrderBookUpdate i n ap av bp bv)
  with assms have "on_order_book_update_message s ETF n ap av bp bv = Inr s'"
    by (cases i) (auto split: sum.splits)
  from on_order_book_update_etf_core [OF this] show ?thesis by (simp add: core_def)
next
  case (TradeTicks i n ap av bp bv)
  with assms show ?thesis by (simp add: on_trade_ticks_message_def)
next
  case (OrderFilled oid p v)
  with assms have r: "on_order_filled_message lo hi s oid p v = Some s'" by simp
  consider "oid \<in> fst ` set (bids s)"
    | "oid \<notin> fst ` set (bids s)" "oid \<in> fst ` set (asks s)"
    | "oid \<notin> fst ` set (bids s)" "oid \<notin> fst ` set (asks s)" by blast
  then show ?thesis
  proof cases
    case 1
    from on_order_filled_bid [OF 1, of lo hi p v] r show ?thesis by auto
  next
    case 2
    from on_order_filled_ask [OF 2, of lo hi p v] r show ?thesis by auto
  next
    case 3
    from on_order_filled_unknown [OF 3, of lo hi p v] r show ?thesis by auto
  qed
next
  case (OrderStatus oid f r fees)
  with assms show ?thesis by (auto simp: on_order_status_message_def split: if_splits)
next
  case (HedgeFilled oid p v)
  with assms show ?thesis by (auto simp: on_hedge_filled_message_def split: if_splits)
next
  case (ErrorMessage oid d)
  with assms show ?thesis
    by (auto simp: on_error_message_def on_order_status_message_def split: if_splits sum.splits)
next
  case (Elapse d)
  with assms show ?thesis by (auto simp: time_sleep_def)
qed

lemma run_keeps_future:
  "\<forall>e\<in>set es. \<not> is_future_update e \<Longrightarrow> run lo hi es s = Some s' \<Longrightarrow>
   future_bid s' = future_bid s \<and> future_ask s' = future_ask s"
proof (induction es arbitrary: s)
  case Nil
  then show ?case by simp
next
  case (Cons e es)
  from Cons.prems(2) obtain s1 where s1: "deliver lo hi e s = Some s1" "run lo hi es s1 = Some s'"
    by (auto split: option.splits)
  from Cons.prems(1) have "\<not> is_future_update e" "\<forall>e\<in>set es. \<not> is_future_update e" by simp_all
  with deliver_keeps_future [OF _ s1(1)] Cons.IH [OF _ s1(2)] show ?case by simp
qed

text \<open>
  Claim C9. Take a state reached from the initial one by callbacks none of which is a
  book update for the future. It still has \<open>future_bid = future_ask = 0\<close>, so an ETF
  snapshot that passes the sequence gate and has positive best prices has its best bid above
  \<open>future_ask\<close>: the handler does what \<open>handle_arbitrage\<close> does, market making does not
  run, and whenever \<open>min(best bid volume, position + ARBITRAGE_LIMIT)\<close> is positive a
  fill-and-kill sell at the best bid is handed to the send wrapper, which passes it on
  unless the rate limit refuses it.
\<close>

theorem arbitrage_before_first_future_snapshot:
  assumes "run lo hi es (init c) = Some s" and "\<forall>e\<in>set es. \<not> is_future_update e"
    and "msg_seq s \<le> n" and "0 < hd bid_prices" and "0 < hd ask_prices"
    and "ask_prices \<noteq> []" and "bid_prices \<noteq> []" and "bid_volumes \<noteq> []"
  shows "future_bid s = 0 \<and> future_ask s = 0 \<and> hd bid_prices > future_ask s
     \<and> on_order_book_update_message s ETF n ask_prices ask_volumes bid_prices bid_volumes
         = handle_arbitrage (s\<lparr>msg_seq := n\<rparr>) ask_prices ask_volumes bid_prices bid_volumes
     \<and> (\<exists>s'. on_order_book_update_message s ETF n ask_prices ask_volumes bid_prices bid_volumes
                = Inr s'
            \<and> sent s' = sent s @
                (if 0 < min (hd bid_volumes) (position s + ARBITRAGE_LIMIT) \<and> has_room s
                 then [InsertOrder (order_ids s) SELL (hd bid_prices)
                         (min (hd bid_volumes) (position s + ARBITRAGE_LIMIT)) FILL_AND_KILL]
                 else []))"
proof -
  have f: "future_bid s = 0" "future_ask s = 0"
    using run_keeps_future [OF assms(2) assms(1)] by (simp_all add: init_def)
  have m: "max (msg_seq s) n = n" using assms(3) by simp
  have route: "on_order_book_update_message s ETF n ask_prices ask_volumes bid_prices bid_volumes
         = handle_arbitrage (s\<lparr>msg_seq := n\<rparr>) ask_prices ask_volumes bid_prices bid_volumes"
    using assms(4-8) f m
    by (auto simp: on_order_book_update_message_def Let_def py_index_0 split: sum.splits)
  have arb: "handle_arbitrage (s\<lparr>msg_seq := n\<rparr>) ask_prices ask_volumes bid_prices bid_volumes
      = Inr (if 0 < min (hd bid_volumes) (position s + ARBITRAGE_LIMIT)
             then snd (send_ask_order (s\<lparr>msg_seq := n\<rparr>) (hd bid_prices)
                        (min (hd bid_volumes) (position s + ARBITRAGE_LIMIT)) FILL_AND_KILL)
             else s\<lparr>msg_seq := n\<rparr>)"
    using assms(4-8) f by (simp add: handle_arbitrage_def py_index_0 Let_def)
  have hr: "has_room (s\<lparr>msg_seq := n\<rparr>) = has_room s" by (simp add: has_room_def)
  show ?thesis
    using f assms(4) route arb hr by (simp add: send_ask_order_eq)
qed


theorem arbitrage_before_first_future_snapshot_witness:
  "run 1 2147483647
       [Elapse 1,
        OrderBookUpdate ETF 1 [10100, 10200, 10300, 10400, 10500] [10, 10, 10, 10, 10]
          [10000, 9900, 9800, 9700, 9600] [10, 10, 10, 10, 10]]
       (init 0)
     = Some \<lparr>order_ids = 2, bids = [], asks = [(1, 10000)], hedge_bid = {}, hedge_ask = {},
         msg_seq = 1, order_timestamps = [1], position = 0, future_bid = 0, future_ask = 0,
         delta = 0, clock = 1, sent = [InsertOrder 1 SELL 10000 10 FILL_AND_KILL]\<rparr>
   \<and> \<not> is_future_update (Elapse 1)
   \<and> \<not> is_future_update (OrderBookUpdate ETF 1 [10100, 10200, 10300, 10400, 10500] [10, 10, 10, 10, 10]
          [10000, 9900, 9800, 9700, 9600] [10, 10, 10, 10, 10])
   \<and> (0::int) < hd [10000, 9900, 9800, 9700, 9600]
   \<and> (0::int) < hd [10100, 10200, 10300, 10400, 10500]
   \<and> (\<exists>s'. on_order_book_update_message
              \<lparr>order_ids = 2, bids = [], asks = [(1, 10000)], hedge_bid = {}, hedge_ask = {},
         msg_seq = 1, order_timestamps = [1], position = 0, future_bid = 0, future_ask = 0,
         delta = 0, clock = 1, sent = [InsertOrder 1 SELL 10000 10 FILL_AND_KILL]\<rparr>
              ETF 2 [10100, 10200, 10300, 10400, 10500] [10, 10, 10, 10, 10]
              [10000, 9900, 9800, 9700, 9600] [10, 10, 10, 10, 10] = Inr s'
          \<and> sent s' = [InsertOrder 1 SELL 10000 10 FILL_AND_KILL,
                        InsertOrder 2 SELL 10000 10 FILL_AND_KILL])"
proof -
  define s1 where "s1 = \<lparr>order_ids = 2, bids = [], asks = [(1, 10000)], hedge_bid = {}, hedge_ask = {},
         msg_seq = 1, order_timestamps = [1], position = 0, future_bid = 0, future_ask = 0,
         delta = 0, clock = 1, sent = [InsertOrder 1 SELL 10000 10 FILL_AND_KILL]\<rparr>"
  have h1: "run 1 2147483647
       [Elapse 1,
        OrderBookUpdate ETF 1 [10100, 10200, 10300, 10400, 10500] [10, 10, 10, 10, 10]
          [10000, 9900, 9800, 9700, 9600] [10, 10, 10, 10, 10]]
       (init 0) = Some s1"
    unfolding s1_def
    by (simp add: on_order_book_update_message_def handle_arbitrage_def time_sleep_def
          send_ask_order_eq has_room_def init_def py_index_def ARBITRAGE_LIMIT_def Let_def)
  have h2: "\<forall>e\<in>set [Elapse 1,
        OrderBookUpdate ETF 1 [10100, 10200, 10300, 10400, 10500] [10, 10, 10, 10, 10]
          [10000, 9900, 9800, 9700, 9600] [10, 10, 10, 10, 10]]. \<not> is_future_update e"
    by simp
  have h3: "msg_seq s1 \<le> 2" by (simp add: s1_def)
  have h4: "(0::int) < hd [10000, 9900, 9800, 9700, 9600]" "(0::int) < hd [10100, 10200, 10300, 10400, 10500]"
    "[10100, 10200, 10300, 10400, 10500] \<noteq> ([]::int list)"
    "[10000, 9900, 9800, 9700, 9600] \<noteq> ([]::int list)"
    "[10, 10, 10, 10, 10] \<noteq> ([]::int list)"
    by simp_all
  have hr: "has_room s1" by (simp add: has_room_def s1_def)
  have v: "sent s1 = [InsertOrder 1 SELL 10000 10 FILL_AND_KILL]" "position s1 = 0"
    "order_ids s1 = 2"
    by (simp_all add: s1_def)
  have "\<exists>s'. on_order_book_update_message s1 ETF 2 [10100, 10200, 10300, 10400, 10500] [10, 10, 10, 10, 10]
              [10000, 9900, 9800, 9700, 9600] [10, 10, 10, 10, 10] = Inr s'
          \<and> sent s' = sent s1 @
                (if 0 < min (hd [10, 10, 10, 10, 10]) (position s1 + ARBITRAGE_LIMIT) \<and> has_room s1
                 then [InsertOrder (order_ids s1) SELL (hd [10000, 9900, 9800, 9700, 9600])
                         (min (hd [10, 10, 10, 10, 10]) (position s1 + ARBITRAGE_LIMIT)) FILL_AND_KILL]
                 else [])"
    using arbitrage_before_first_future_snapshot [OF h1 h2 h3 h4, of "[10, 10, 10, 10, 10]"] by blast
  then have c: "\<exists>s'. on_order_book_update_message s1 ETF 2 [10100, 10200, 10300, 10400, 10500] [10, 10, 10, 10, 10]
              [10000, 9900, 9800, 9700, 9600] [10, 10, 10, 10, 10] = Inr s'
          \<and> sent s' = [InsertOrder 1 SELL 10000 10 FILL_AND_KILL,
                        InsertOrder 2 SELL 10000 10 FILL_AND_KILL]"
    using hr v by (simp add: ARBITRAGE_LIMIT_def)
  have f: "\<not> is_future_update (Elapse 1)"
    "\<not> is_future_update (OrderBookUpdate ETF 1 [10100, 10200, 10300, 10400, 10500] [10, 10, 10, 10, 10]
          [10000, 9900, 9800, 9700, 9600] [10, 10, 10, 10, 10])"
    by simp_all
  show ?thesis
    unfolding s1_def [symmetric] using h1 f h4(1,2) c by blast
qed

subsection \<open>Book clearing\<close>

lemma find_map_index:
  "List.find P (map f xs) = map_option f (List.find (\<lambda>x. P (f x)) xs)"
  by (induction xs) simp_all

lemma cutoff_loop_find:
  "cutoff_loop prices volumes i vol cutoff =
     (case List.find (\<lambda>j. 3 * LOT_SIZE \<le> vol + sum_list (take (Suc j) volumes)) [0..<length volumes] of
        Some j \<Rightarrow> py_index prices (i + j)
      | None \<Rightarrow> Inr cutoff)"
proof (induction volumes arbitrary: i vol)
  case Nil
  show ?case by simp
next
  case (Cons v volumes)
  have upt: "[0..<length (v # volumes)] = 0 # map Suc [0..<length volumes]"
    by (simp add: upt_conv_Cons map_Suc_upt del: upt_Suc)
  show ?case
  proof (cases "3 * LOT_SIZE \<le> vol + v")
    case True
    then show ?thesis unfolding upt by simp
  next
    case False
    have "cutoff_loop prices (v # volumes) i vol cutoff
          = cutoff_loop prices volumes (Suc i) (vol + v) cutoff"
      using False by simp
    also have "\<dots> = (case List.find (\<lambda>j. 3 * LOT_SIZE \<le> vol + v + sum_list (take (Suc j) volumes))
                            [0..<length volumes] of
                       Some j \<Rightarrow> py_index prices (Suc i + j) | None \<Rightarrow> Inr cutoff)"
      by (rule Cons.IH)
    also have "\<dots> = (case List.find (\<lambda>j. 3 * LOT_SIZE \<le> vol + sum_list (take (Suc j) (v # volumes)))
                            [0..<length (v # volumes)] of
                       Some j \<Rightarrow> py_index prices (i + j) | None \<Rightarrow> Inr cutoff)"
      unfolding upt using False
      by (simp add: find_map_index add.assoc split: option.splits)
    finally show ?thesis .
  qed
qed

lemma find_index_bound:
  "List.find P [0..<n] = Some i \<Longrightarrow> i < n"
  by (auto simp: find_Some_iff)

lemma cutoff_loop_spec:
  assumes "length prices = 5" "length volumes = 5"
  shows "cutoff_loop prices volumes 0 0 (last prices) = Inr (cutoff_spec prices volumes)"
proof -
  have l: "last prices = prices ! 4"
    using assms(1) by (cases prices rule: rev_cases) (auto simp: nth_append)
  show ?thesis
    unfolding cutoff_loop_find cutoff_spec_def l
    using assms by (auto simp: py_index_def split: option.splits dest!: find_index_bound)
qed

lemma popleft_old_idem: "popleft_old c (popleft_old c w) = popleft_old c w"
  by (induction w) auto

lemma popleft_old_append_now: "popleft_old c (popleft_old c w @ [c]) = popleft_old c w @ [c]"
  by (induction w) auto

lemma send_cancel_order_room:
  assumes "length (order_timestamps s) \<le> 50"
  shows "sent (snd (send_cancel_order s order_id))
           = sent s @ (if 0 < room s then [CancelOrder order_id] else [])"
    and "room (snd (send_cancel_order s order_id)) = room s - 1"
    and "length (order_timestamps (snd (send_cancel_order s order_id))) \<le> 50"
    and "bids (snd (send_cancel_order s order_id)) = bids s"
    and "asks (snd (send_cancel_order s order_id)) = asks s"
proof -
  have le: "length (popleft_old (clock s) (order_timestamps s)) \<le> 50"
    using popleft_old_length [of "clock s" "order_timestamps s"] assms by linarith
  then have hr: "has_room s \<longleftrightarrow> 0 < room s" by (auto simp: has_room_def room_def)
  show "sent (snd (send_cancel_order s order_id))
           = sent s @ (if 0 < room s then [CancelOrder order_id] else [])"
    by (simp add: send_cancel_order_eq hr)
  show "room (snd (send_cancel_order s order_id)) = room s - 1"
    using le by (auto simp: send_cancel_order_eq hr room_def popleft_old_idem popleft_old_append_now)
  show "length (order_timestamps (snd (send_cancel_order s order_id))) \<le> 50"
    using le by (auto simp: send_cancel_order_eq hr room_def)
  show "bids (snd (send_cancel_order s order_id)) = bids s"
    "asks (snd (send_cancel_order s order_id)) = asks s"
    by (simp_all add: send_cancel_order_eq)
qed

lemma cancel_where_room:
  assumes "length (order_timestamps s) \<le> 50"
  shows "sent (cancel_where P items s) = sent s @ map CancelOrder (take (room s) (ids_where P items))
       \<and> room (cancel_where P items s) = room s - length (ids_where P items)
       \<and> length (order_timestamps (cancel_where P items s)) \<le> 50
       \<and> bids (cancel_where P items s) = bids s
       \<and> asks (cancel_where P items s) = asks s"
  using assms
proof (induction P items s rule: cancel_where.induct)
  case (1 P s)
  then show ?case by (simp add: ids_where_def)
next
  case (2 P order_id price items s)
  show ?case
  proof (cases "P price")
    case False
    with 2 show ?thesis by (simp add: ids_where_def)
  next
    case True
    define s1 where "s1 = snd (send_cancel_order s order_id)"
    note f = send_cancel_order_room [OF "2.prems", of order_id, folded s1_def]
    have IH: "sent (cancel_where P items s1) = sent s1 @ map CancelOrder (take (room s1) (ids_where P items))
       \<and> room (cancel_where P items s1) = room s1 - length (ids_where P items)
       \<and> length (order_timestamps (cancel_where P items s1)) \<le> 50
       \<and> bids (cancel_where P items s1) = bids s1
       \<and> asks (cancel_where P items s1) = asks s1"
      using "2.IH"(1) [OF True] f(3) unfolding s1_def by blast
    have ids: "ids_where P ((order_id, price) # items) = order_id # ids_where P items"
      using True by (simp add: ids_where_def)
    have step: "cancel_where P ((order_id, price) # items) s = cancel_where P items s1"
      using True by (simp add: s1_def)
    show ?thesis
      unfolding step ids using IH f
      by (cases "room s") auto
  qed
qed


text \<open>
  Claim C8. Given the five reported levels of each side, \<open>clear_book\<close> returns and its
  two cutoffs are the ones the specification describes: the price of the first level at
  which the cumulative volume reaches \<open>3 * LOT_SIZE = 60\<close>, and the fifth reported price
  when no level reaches it. It then calls \<open>send_cancel_order\<close> for every own bid priced at
  or below the bid cutoff, in the order of the dictionary, and after them for every own ask
  priced at or above the ask cutoff; the dictionaries themselves are left as they are. The
  cancel commands that reach the transport are the first \<open>room s\<close> of these requests, all
  of them when the rate limit has room for all. The deque holds at most 50 timestamps in
  every state the trader reaches (lemma \<open>trader_ok_reachable\<close> below).
\<close>

theorem clear_book_cutoffs_and_cancels:
  assumes "length ask_prices = 5" "length bid_prices = 5"
    and "length ask_volumes = 5" "length bid_volumes = 5"
    and "length (order_timestamps s) \<le> 50"
  shows "\<exists>s'. clear_book s ask_prices bid_prices ask_volumes bid_volumes = Inr s'
     \<and> bids s' = bids s \<and> asks s' = asks s
     \<and> sent s' = sent s @ map CancelOrder (take (room s)
          (ids_where (\<lambda>bid. bid \<le> cutoff_spec bid_prices bid_volumes) (bids s)
           @ ids_where (\<lambda>ask. ask \<ge> cutoff_spec ask_prices ask_volumes) (asks s)))"
proof -
  define cb where "cb = cutoff_spec bid_prices bid_volumes"
  define ca where "ca = cutoff_spec ask_prices ask_volumes"
  define s1 where "s1 = cancel_where (\<lambda>bid. bid \<le> cb) (bids s) s"
  define s2 where "s2 = cancel_where (\<lambda>ask. ask \<ge> ca) (asks s1) s1"
  have ne: "ask_prices \<noteq> []" "bid_prices \<noteq> []" using assms(1,2) by auto
  have r: "clear_book s ask_prices bid_prices ask_volumes bid_volumes = Inr s2"
    unfolding clear_book_def s2_def s1_def ca_def cb_def
    using ne cutoff_loop_spec [OF assms(1) assms(3)] cutoff_loop_spec [OF assms(2) assms(4)]
    by (simp add: py_last_def Let_def)
  note c1 = cancel_where_room [OF assms(5), of "\<lambda>bid. bid \<le> cb" "bids s", folded s1_def]
  then have "length (order_timestamps s1) \<le> 50" by blast
  note c2 = cancel_where_room [OF this, of "\<lambda>ask. ask \<ge> ca" "asks s1", folded s2_def]
  have "sent s2 = sent s @ map CancelOrder (take (room s)
          (ids_where (\<lambda>bid. bid \<le> cb) (bids s) @ ids_where (\<lambda>ask. ask \<ge> ca) (asks s)))"
    using c1 c2 by simp
  moreover have "bids s2 = bids s" "asks s2 = asks s" using c1 c2 by simp_all
  ultimately show ?thesis using r unfolding ca_def cb_def by blast
qed

theorem clear_book_cutoffs_and_cancels_witness:
  "length ([10200, 10300, 10400, 10500, 10600]::int list) = 5
   \<and> length ([9900, 9800, 9700, 9600, 9500]::int list) = 5
   \<and> cutoff_spec [10200, 10300, 10400, 10500, 10600] [30, 40, 10, 10, 10] = 10300
   \<and> cutoff_spec [9900, 9800, 9700, 9600, 9500] [10, 10, 10, 10, 10] = 9500
   \<and> (\<exists>s'. clear_book ((init 0)\<lparr>order_ids := 5, bids := [(1, 9800), (2, 9500)],
                       asks := [(3, 10300), (4, 10600)]\<rparr>)
             [10200, 10300, 10400, 10500, 10600] [9900, 9800, 9700, 9600, 9500]
             [30, 40, 10, 10, 10] [10, 10, 10, 10, 10] = Inr s'
          \<and> sent s' = [CancelOrder 2, CancelOrder 3, CancelOrder 4])"
proof -
  define s0 where "s0 = ((init 0)\<lparr>order_ids := 5, bids := [(1, 9800), (2, 9500)],
                       asks := [(3, 10300), (4, 10600)]\<rparr>)"
  have h: "length ([10200, 10300, 10400, 10500, 10600]::int list) = 5"
    "length ([9900, 9800, 9700, 9600, 9500]::int list) = 5"
    "length ([30, 40, 10, 10, 10]::int list) = 5"
    "length ([10, 10, 10, 10, 10]::int list) = 5"
    by simp_all
  have w: "length (order_timestamps s0) \<le> 50" by (simp add: s0_def init_def)
  have ca: "cutoff_spec [10200, 10300, 10400, 10500, 10600] [30, 40, 10, 10, 10] = 10300"
    by code_simp
  have cb: "cutoff_spec [9900, 9800, 9700, 9600, 9500] [10, 10, 10, 10, 10] = 9500"
    by code_simp
  have v: "room s0 = 50" "sent s0 = []" "bids s0 = [(1, 9800), (2, 9500)]"
    "asks s0 = [(3, 10300), (4, 10600)]"
    by (simp_all add: s0_def init_def room_def)
  have "\<exists>s'. clear_book s0 [10200, 10300, 10400, 10500, 10600] [9900, 9800, 9700, 9600, 9500]
             [30, 40, 10, 10, 10] [10, 10, 10, 10, 10] = Inr s'
          \<and> sent s' = [CancelOrder 2, CancelOrder 3, CancelOrder 4]"
    using clear_book_cutoffs_and_cancels [OF h w]
    unfolding ca cb v by (auto simp: ids_where_def)
  then show ?thesis using h(1,2) ca cb unfolding s0_def by blast
qed

subsection \<open>Market making\<close>

lemma update_fresh: "k \<notin> fst ` set al \<Longrightarrow> AList.update k v al = al @ [(k, v)]"
  by (induction al) auto

lemma range_step_Nil:
  "\<not> (0 < step \<and> start < stop) \<Longrightarrow> range_step start stop step = []"
  by (subst range_step.simps) simp

lemma range_step_Cons:
  "0 < step \<and> start < stop \<Longrightarrow>
   range_step start stop step = start # range_step (start + step) stop step"
  by (subst range_step.simps) simp

lemma range_step_bounds:
  "p \<in> set (range_step start stop step) \<Longrightarrow> start \<le> p \<and> p < stop \<and> step dvd (p - start)"
proof (induction start stop step rule: range_step.induct)
  case (1 start stop step)
  show ?case
  proof (cases "0 < step \<and> start < stop")
    case False
    from "1.prems" show ?thesis unfolding range_step_Nil [OF False] by simp
  next
    case True
    from "1.prems" consider "p = start" | "p \<in> set (range_step (start + step) stop step)"
      unfolding range_step_Cons [OF True] by auto
    then show ?thesis
    proof cases
      case 1
      with True show ?thesis by simp
    next
      case 2
      from "1.IH" [OF True 2] True
      have "start \<le> p" "p < stop" "step dvd (p - (start + step))" by auto
      moreover have "p - start = (p - (start + step)) + step" by simp
      ultimately show ?thesis by (metis dvd_add dvd_refl)
    qed
  qed
qed

lemma range_step_sorted: "sorted_wrt (<) (range_step start stop step)"
proof (induction start stop step rule: range_step.induct)
  case (1 start stop step)
  show ?case
  proof (cases "0 < step \<and> start < stop")
    case False
    show ?thesis unfolding range_step_Nil [OF False] by simp
  next
    case True
    have "\<forall>p\<in>set (range_step (start + step) stop step). start < p"
      using range_step_bounds [of _ "start + step" stop step] True by fastforce
    with "1.IH" [OF True] show ?thesis
      unfolding range_step_Cons [OF True] by simp
  qed
qed

lemma cancel_where_sent:
  "\<exists>cancels. sent (cancel_where P items s) = sent s @ map CancelOrder cancels
     \<and> bids (cancel_where P items s) = bids s \<and> asks (cancel_where P items s) = asks s
     \<and> order_ids (cancel_where P items s) = order_ids s"
proof (induction P items s rule: cancel_where.induct)
  case (1 P s)
  have "sent s = sent s @ map CancelOrder []" by simp
  then show ?case by (metis cancel_where.simps(1))
next
  case (2 P order_id price items s)
  show ?case
  proof (cases "P price")
    case False
    with 2 show ?thesis by simp
  next
    case True
    define s1 where "s1 = snd (send_cancel_order s order_id)"
    from "2.IH"(1) [OF True] obtain cs where cs:
      "sent (cancel_where P items s1) = sent s1 @ map CancelOrder cs"
      "bids (cancel_where P items s1) = bids s1" "asks (cancel_where P items s1) = asks s1"
      "order_ids (cancel_where P items s1) = order_ids s1"
      unfolding s1_def by blast
    have s1: "sent s1 = sent s @ map CancelOrder (if has_room s then [order_id] else [])"
      "bids s1 = bids s" "asks s1 = asks s" "order_ids s1 = order_ids s"
      by (simp_all add: s1_def send_cancel_order_eq)
    have "sent (cancel_where P items s1)
          = sent s @ map CancelOrder ((if has_room s then [order_id] else []) @ cs)"
      using cs(1) s1(1) by simp
    moreover have "cancel_where P ((order_id, price) # items) s = cancel_where P items s1"
      using True by (simp add: s1_def)
    ultimately show ?thesis using cs(2-4) s1(2-4) by metis
  qed
qed

lemma clear_book_sent:
  assumes "length ask_prices = 5" "length bid_prices = 5"
    and "length ask_volumes = 5" "length bid_volumes = 5"
  shows "\<exists>s1 cancels. clear_book s ask_prices bid_prices ask_volumes bid_volumes = Inr s1
     \<and> sent s1 = sent s @ map CancelOrder cancels
     \<and> bids s1 = bids s \<and> asks s1 = asks s \<and> order_ids s1 = order_ids s \<and> core s1 = core s"
proof -
  define cb where "cb = cutoff_spec bid_prices bid_volumes"
  define ca where "ca = cutoff_spec ask_prices ask_volumes"
  define s1 where "s1 = cancel_where (\<lambda>bid. bid \<le> cb) (bids s) s"
  define s2 where "s2 = cancel_where (\<lambda>ask. ask \<ge> ca) (asks s1) s1"
  have ne: "ask_prices \<noteq> []" "bid_prices \<noteq> []" using assms(1,2) by auto
  have r: "clear_book s ask_prices bid_prices ask_volumes bid_volumes = Inr s2"
    unfolding clear_book_def s2_def s1_def ca_def cb_def
    using ne cutoff_loop_spec [OF assms(1) assms(3)] cutoff_loop_spec [OF assms(2) assms(4)]
    by (simp add: py_last_def Let_def)
  obtain c1 where c1: "sent s1 = sent s @ map CancelOrder c1" "bids s1 = bids s"
    "asks s1 = asks s" "order_ids s1 = order_ids s"
    unfolding s1_def using cancel_where_sent by blast
  obtain c2 where c2: "sent s2 = sent s1 @ map CancelOrder c2" "bids s2 = bids s1"
    "asks s2 = asks s1" "order_ids s2 = order_ids s1"
    unfolding s2_def using cancel_where_sent by blast
  have "sent s2 = sent s @ map CancelOrder (c1 @ c2)" using c1 c2 by simp
  moreover have "core s2 = core s" using core_clear_book [OF r] .
  ultimately show ?thesis using r c1 c2 by metis
qed


lemma place_asks_ladder:
  assumes "\<forall>k\<in>fst ` set (asks s). k < order_ids s"
  shows "\<exists>ps. sent (place_asks prices n s) = sent s @ ladder SELL (order_ids s) ps
     \<and> order_ids (place_asks prices n s) = order_ids s + int (length ps)
     \<and> int (length ps) \<le> max 0 n
     \<and> set ps \<subseteq> set prices - snd ` set (asks s)
     \<and> (sorted_wrt (<) prices \<longrightarrow> sorted_wrt (<) ps)
     \<and> bids (place_asks prices n s) = bids s"
  using assms
proof (induction prices arbitrary: n s)
  case Nil
  have "sent s = sent s @ ladder SELL (order_ids s) []" by simp
  then show ?case by (metis place_asks.simps(1) add.right_neutral empty_set empty_subsetI
      list.size(3) max.cobounded1 of_nat_0 sorted_wrt.simps(1))
next
  case (Cons i rest)
  show ?case
  proof (cases "i \<notin> snd ` set (asks s) \<and> n > 0")
    case False
    then have step: "place_asks (i # rest) n s = place_asks rest n s" by auto
    from Cons.IH [OF Cons.prems, of n] obtain ps where ps:
      "sent (place_asks rest n s) = sent s @ ladder SELL (order_ids s) ps"
      "order_ids (place_asks rest n s) = order_ids s + int (length ps)"
      "int (length ps) \<le> max 0 n"
      "set ps \<subseteq> set rest - snd ` set (asks s)"
      "sorted_wrt (<) rest \<longrightarrow> sorted_wrt (<) ps"
      "bids (place_asks rest n s) = bids s"
      by blast
    have "set ps \<subseteq> set (i # rest) - snd ` set (asks s)" using ps(4) by auto
    moreover have "sorted_wrt (<) (i # rest) \<longrightarrow> sorted_wrt (<) ps" using ps(5) by simp
    ultimately show ?thesis unfolding step using ps(1,2,3,6) by blast
  next
    case True
    define s1 where "s1 = snd (send_ask_order s i LOT_SIZE GOOD_FOR_DAY)"
    have step: "place_asks (i # rest) n s = place_asks rest (n - 1) s1"
      using True by (simp add: s1_def)
    show ?thesis
    proof (cases "has_room s")
      case False
      then have s1: "sent s1 = sent s" "order_ids s1 = order_ids s" "asks s1 = asks s"
        "bids s1 = bids s"
        by (simp_all add: s1_def send_ask_order_eq)
      have "\<forall>k\<in>fst ` set (asks s1). k < order_ids s1" using Cons.prems s1 by simp
      from Cons.IH [OF this, of "n - 1"] obtain ps where ps:
        "sent (place_asks rest (n - 1) s1) = sent s @ ladder SELL (order_ids s) ps"
        "order_ids (place_asks rest (n - 1) s1) = order_ids s + int (length ps)"
        "int (length ps) \<le> max 0 (n - 1)"
        "set ps \<subseteq> set rest - snd ` set (asks s)"
        "sorted_wrt (<) rest \<longrightarrow> sorted_wrt (<) ps"
        "bids (place_asks rest (n - 1) s1) = bids s"
        unfolding s1 by blast
      have "int (length ps) \<le> max 0 n" using ps(3) by linarith
      moreover have "set ps \<subseteq> set (i # rest) - snd ` set (asks s)" using ps(4) by auto
      moreover have "sorted_wrt (<) (i # rest) \<longrightarrow> sorted_wrt (<) ps" using ps(5) by simp
      ultimately show ?thesis unfolding step using ps(1,2,6) by blast
    next
      case room: True
      have nk: "order_ids s \<notin> fst ` set (asks s)" using Cons.prems by fastforce
      have s1: "sent s1 = sent s @ [InsertOrder (order_ids s) SELL i LOT_SIZE GOOD_FOR_DAY]"
        "order_ids s1 = order_ids s + 1" "asks s1 = asks s @ [(order_ids s, i)]"
        "bids s1 = bids s"
        using room by (simp_all add: s1_def send_ask_order_eq update_fresh [OF nk])
      have "\<forall>k\<in>fst ` set (asks s1). k < order_ids s1" using Cons.prems s1 by auto
      from Cons.IH [OF this, of "n - 1"] obtain ps where ps:
        "sent (place_asks rest (n - 1) s1) = sent s1 @ ladder SELL (order_ids s1) ps"
        "order_ids (place_asks rest (n - 1) s1) = order_ids s1 + int (length ps)"
        "int (length ps) \<le> max 0 (n - 1)"
        "set ps \<subseteq> set rest - snd ` set (asks s1)"
        "sorted_wrt (<) rest \<longrightarrow> sorted_wrt (<) ps"
        "bids (place_asks rest (n - 1) s1) = bids s1"
        by blast
      have 1: "sent (place_asks rest (n - 1) s1) = sent s @ ladder SELL (order_ids s) (i # ps)"
        using ps(1) s1(1,2) by simp
      have 2: "order_ids (place_asks rest (n - 1) s1) = order_ids s + int (length (i # ps))"
        using ps(2) s1(2) by simp
      have 3: "int (length (i # ps)) \<le> max 0 n" using ps(3) True by simp
      have 4: "set (i # ps) \<subseteq> set (i # rest) - snd ` set (asks s)"
        using ps(4) True unfolding s1(3) by auto
      have 5: "sorted_wrt (<) (i # rest) \<longrightarrow> sorted_wrt (<) (i # ps)"
        using ps(4,5) by auto
      have 6: "bids (place_asks rest (n - 1) s1) = bids s" using ps(6) s1(4) by simp
      show ?thesis unfolding step using 1 2 3 4 5 6 by blast
    qed
  qed
qed

lemma place_bids_ladder:
  assumes "\<forall>k\<in>fst ` set (bids s). k < order_ids s"
  shows "\<exists>ps. sent (place_bids prices n s) = sent s @ ladder BUY (order_ids s) ps
     \<and> order_ids (place_bids prices n s) = order_ids s + int (length ps)
     \<and> int (length ps) \<le> max 0 n
     \<and> set ps \<subseteq> set prices - snd ` set (bids s)
     \<and> (sorted_wrt (<) prices \<longrightarrow> sorted_wrt (<) ps)
     \<and> asks (place_bids prices n s) = asks s"
  using assms
proof (induction prices arbitrary: n s)
  case Nil
  have "sent s = sent s @ ladder BUY (order_ids s) []" by simp
  then show ?case by (metis place_bids.simps(1) add.right_neutral empty_set empty_subsetI
      list.size(3) max.cobounded1 of_nat_0 sorted_wrt.simps(1))
next
  case (Cons i rest)
  show ?case
  proof (cases "i \<notin> snd ` set (bids s) \<and> n > 0")
    case False
    then have step: "place_bids (i # rest) n s = place_bids rest n s" by auto
    from Cons.IH [OF Cons.prems, of n] obtain ps where ps:
      "sent (place_bids rest n s) = sent s @ ladder BUY (order_ids s) ps"
      "order_ids (place_bids rest n s) = order_ids s + int (length ps)"
      "int (length ps) \<le> max 0 n"
      "set ps \<subseteq> set rest - snd ` set (bids s)"
      "sorted_wrt (<) rest \<longrightarrow> sorted_wrt (<) ps"
      "asks (place_bids rest n s) = asks s"
      by blast
    have "set ps \<subseteq> set (i # rest) - snd ` set (bids s)" using ps(4) by auto
    moreover have "sorted_wrt (<) (i # rest) \<longrightarrow> sorted_wrt (<) ps" using ps(5) by simp
    ultimately show ?thesis unfolding step using ps(1,2,3,6) by blast
  next
    case True
    define s1 where "s1 = snd (send_bid_order s i LOT_SIZE GOOD_FOR_DAY)"
    have step: "place_bids (i # rest) n s = place_bids rest (n - 1) s1"
      using True by (simp add: s1_def)
    show ?thesis
    proof (cases "has_room s")
      case False
      then have s1: "sent s1 = sent s" "order_ids s1 = order_ids s" "bids s1 = bids s"
        "asks s1 = asks s"
        by (simp_all add: s1_def send_bid_order_eq)
      have "\<forall>k\<in>fst ` set (bids s1). k < order_ids s1" using Cons.prems s1 by simp
      from Cons.IH [OF this, of "n - 1"] obtain ps where ps:
        "sent (place_bids rest (n - 1) s1) = sent s @ ladder BUY (order_ids s) ps"
        "order_ids (place_bids rest (n - 1) s1) = order_ids s + int (length ps)"
        "int (length ps) \<le> max 0 (n - 1)"
        "set ps \<subseteq> set rest - snd ` set (bids s)"
        "sorted_wrt (<) rest \<longrightarrow> sorted_wrt (<) ps"
        "asks (place_bids rest (n - 1) s1) = asks s"
        unfolding s1 by blast
      have "int (length ps) \<le> max 0 n" using ps(3) by linarith
      moreover have "set ps \<subseteq> set (i # rest) - snd ` set (bids s)" using ps(4) by auto
      moreover have "sorted_wrt (<) (i # rest) \<longrightarrow> sorted_wrt (<) ps" using ps(5) by simp
      ultimately show ?thesis unfolding step using ps(1,2,6) by blast
    next
      case room: True
      have nk: "order_ids s \<notin> fst ` set (bids s)" using Cons.prems by fastforce
      have s1: "sent s1 = sent s @ [InsertOrder (order_ids s) BUY i LOT_SIZE GOOD_FOR_DAY]"
        "order_ids s1 = order_ids s + 1" "bids s1 = bids s @ [(order_ids s, i)]"
        "asks s1 = asks s"
        using room by (simp_all add: s1_def send_bid_order_eq update_fresh [OF nk])
      have "\<forall>k\<in>fst ` set (bids s1). k < order_ids s1" using Cons.prems s1 by auto
      from Cons.IH [OF this, of "n - 1"] obtain ps where ps:
        "sent (place_bids rest (n - 1) s1) = sent s1 @ ladder BUY (order_ids s1) ps"
        "order_ids (place_bids rest (n - 1) s1) = order_ids s1 + int (length ps)"
        "int (length ps) \<le> max 0 (n - 1)"
        "set ps \<subseteq> set rest - snd ` set (bids s1)"
        "sorted_wrt (<) rest \<longrightarrow> sorted_wrt (<) ps"
        "asks (place_bids rest (n - 1) s1) = asks s1"
        by blast
      have 1: "sent (place_bids rest (n - 1) s1) = sent s @ ladder BUY (order_ids s) (i # ps)"
        using ps(1) s1(1,2) by simp
      have 2: "order_ids (place_bids rest (n - 1) s1) = order_ids s + int (length (i # ps))"
        using ps(2) s1(2) by simp
      have 3: "int (length (i # ps)) \<le> max 0 n" using ps(3) True by simp
      have 4: "set (i # ps) \<subseteq> set (i # rest) - snd ` set (bids s)"
        using ps(4) True unfolding s1(3) by auto
      have 5: "sorted_wrt (<) (i # rest) \<longrightarrow> sorted_wrt (<) (i # ps)"
        using ps(4,5) by auto
      have 6: "asks (place_bids rest (n - 1) s1) = asks s" using ps(6) s1(4) by simp
      show ?thesis unfolding step using 1 2 3 4 5 6 by blast
    qed
  qed
qed


text \<open>
  Claim C7. Given the five reported levels of each side and a state whose dictionaries
  hold only identifiers handed out before, \<open>handle_market_making\<close> returns, and what it
  hands to the transport is the cancels of the book clearing, then a ladder of asks, then a
  ladder of bids. Every quote of a ladder is a good-for-day order of \<open>LOT_SIZE\<close> lots.
  Every ask price lies in \<open>[min_ask, etf_ask)\<close> with \<open>min_ask = future_ask + 2 ticks\<close>,
  a whole number of ticks above \<open>min_ask\<close>, and was not quoted among the asks before;
  every bid price lies in \<open>[etf_bid, max_bid)\<close> with \<open>max_bid = future_bid - 2 ticks\<close>,
  a whole number of ticks above \<open>etf_bid\<close>, and was not quoted among the bids before.
  The prices of a ladder increase strictly, so no price is quoted twice. The number of new
  asks is at most \<open>(position + POSITION_LIMIT) // LOT_SIZE - len(asks)\<close> and the number of
  new bids at most \<open>(POSITION_LIMIT - position) // LOT_SIZE - len(bids)\<close>; there is none
  when that number is not positive. The condition on the identifiers holds in every state
  the trader reaches (lemma \<open>trader_ok_reachable\<close> below).
\<close>

theorem market_making_quotes:
  assumes "length ask_prices = 5" "length bid_prices = 5"
    and "length ask_volumes = 5" "length bid_volumes = 5"
    and "ids_fresh s"
  shows "\<exists>s' cancels new_asks new_bids.
       handle_market_making s bid_prices bid_volumes ask_prices ask_volumes = Inr s'
     \<and> sent s' = sent s @ map CancelOrder cancels
                    @ ladder SELL (order_ids s) new_asks
                    @ ladder BUY (order_ids s + int (length new_asks)) new_bids
     \<and> (\<forall>p\<in>set new_asks.
            future_ask s + 2 * TICK_SIZE_IN_CENTS \<le> p \<and> p < hd ask_prices
          \<and> TICK_SIZE_IN_CENTS dvd (p - (future_ask s + 2 * TICK_SIZE_IN_CENTS))
          \<and> p \<notin> snd ` set (asks s))
     \<and> (\<forall>p\<in>set new_bids.
            hd bid_prices \<le> p \<and> p < future_bid s - 2 * TICK_SIZE_IN_CENTS
          \<and> TICK_SIZE_IN_CENTS dvd (p - hd bid_prices)
          \<and> p \<notin> snd ` set (bids s))
     \<and> sorted_wrt (<) new_asks \<and> sorted_wrt (<) new_bids
     \<and> int (length new_asks)
           \<le> max 0 ((position s + POSITION_LIMIT) div LOT_SIZE - int (length (asks s)))
     \<and> int (length new_bids)
           \<le> max 0 ((POSITION_LIMIT - position s) div LOT_SIZE - int (length (bids s)))"
proof -
  obtain s1 cancels where s1:
    "clear_book s ask_prices bid_prices ask_volumes bid_volumes = Inr s1"
    "sent s1 = sent s @ map CancelOrder cancels"
    "bids s1 = bids s" "asks s1 = asks s" "order_ids s1 = order_ids s" "core s1 = core s"
    using clear_book_sent [OF assms(1-4)] by blast
  have c: "position s1 = position s" "future_bid s1 = future_bid s" "future_ask s1 = future_ask s"
    using core_fields [OF s1(6)] by simp_all
  define max_buy_order where
    "max_buy_order = (POSITION_LIMIT - position s) div LOT_SIZE - int (length (bids s))"
  define max_sell_order where
    "max_sell_order = (position s + POSITION_LIMIT) div LOT_SIZE - int (length (asks s))"
  define ask_range where
    "ask_range = range_step (future_ask s + 2 * TICK_SIZE_IN_CENTS) (hd ask_prices) TICK_SIZE_IN_CENTS"
  define bid_range where
    "bid_range = range_step (hd bid_prices) (future_bid s - 2 * TICK_SIZE_IN_CENTS) TICK_SIZE_IN_CENTS"
  define s2 where "s2 = place_asks ask_range max_sell_order s1"
  define s3 where "s3 = place_bids bid_range max_buy_order s2"
  have ne: "ask_prices \<noteq> []" "bid_prices \<noteq> []" using assms(1,2) by auto
  have r: "handle_market_making s bid_prices bid_volumes ask_prices ask_volumes = Inr s3"
    unfolding handle_market_making_def s1(1) s3_def s2_def ask_range_def bid_range_def
      max_buy_order_def max_sell_order_def
    using ne by (simp add: Let_def py_index_0 c s1(3,4))
  have fa: "\<forall>k\<in>fst ` set (asks s1). k < order_ids s1"
    using assms(5) s1(4,5) by (simp add: ids_fresh_def)
  from place_asks_ladder [OF fa, of ask_range max_sell_order] obtain pa where pa:
    "sent s2 = sent s1 @ ladder SELL (order_ids s1) pa"
    "order_ids s2 = order_ids s1 + int (length pa)"
    "int (length pa) \<le> max 0 max_sell_order"
    "set pa \<subseteq> set ask_range - snd ` set (asks s1)"
    "sorted_wrt (<) ask_range \<longrightarrow> sorted_wrt (<) pa"
    "bids s2 = bids s1"
    unfolding s2_def by blast
  have fb: "\<forall>k\<in>fst ` set (bids s2). k < order_ids s2"
    using assms(5) s1(3,5) pa(2,6) by (fastforce simp: ids_fresh_def)
  from place_bids_ladder [OF fb, of bid_range max_buy_order] obtain pb where pb:
    "sent s3 = sent s2 @ ladder BUY (order_ids s2) pb"
    "order_ids s3 = order_ids s2 + int (length pb)"
    "int (length pb) \<le> max 0 max_buy_order"
    "set pb \<subseteq> set bid_range - snd ` set (bids s2)"
    "sorted_wrt (<) bid_range \<longrightarrow> sorted_wrt (<) pb"
    "asks s3 = asks s2"
    unfolding s3_def by blast
  have 1: "sent s3 = sent s @ map CancelOrder cancels @ ladder SELL (order_ids s) pa
                     @ ladder BUY (order_ids s + int (length pa)) pb"
    using pb(1) pa(1,2) s1(2,5) by simp
  have 2: "\<forall>p\<in>set pa.
            future_ask s + 2 * TICK_SIZE_IN_CENTS \<le> p \<and> p < hd ask_prices
          \<and> TICK_SIZE_IN_CENTS dvd (p - (future_ask s + 2 * TICK_SIZE_IN_CENTS))
          \<and> p \<notin> snd ` set (asks s)"
  proof
    fix p assume "p \<in> set pa"
    with pa(4) have "p \<in> set ask_range" "p \<notin> snd ` set (asks s1)" by auto
    with range_step_bounds [of p] s1(4) show
      "future_ask s + 2 * TICK_SIZE_IN_CENTS \<le> p \<and> p < hd ask_prices
          \<and> TICK_SIZE_IN_CENTS dvd (p - (future_ask s + 2 * TICK_SIZE_IN_CENTS))
          \<and> p \<notin> snd ` set (asks s)"
      unfolding ask_range_def by simp
  qed
  have 3: "\<forall>p\<in>set pb.
            hd bid_prices \<le> p \<and> p < future_bid s - 2 * TICK_SIZE_IN_CENTS
          \<and> TICK_SIZE_IN_CENTS dvd (p - hd bid_prices)
          \<and> p \<notin> snd ` set (bids s)"
  proof
    fix p assume "p \<in> set pb"
    with pb(4) have "p \<in> set bid_range" "p \<notin> snd ` set (bids s2)" by auto
    with range_step_bounds [of p] s1(3) pa(6) show
      "hd bid_prices \<le> p \<and> p < future_bid s - 2 * TICK_SIZE_IN_CENTS
          \<and> TICK_SIZE_IN_CENTS dvd (p - hd bid_prices)
          \<and> p \<notin> snd ` set (bids s)"
      unfolding bid_range_def by simp
  qed
  have 4: "sorted_wrt (<) pa" "sorted_wrt (<) pb"
    using pa(5) pb(5) range_step_sorted unfolding ask_range_def bid_range_def by blast+
  show ?thesis
    using r 1 2 3 4 pa(3) pb(3) unfolding max_sell_order_def max_buy_order_def by blast
qed


theorem market_making_quotes_witness:
  "length ([10600, 10700, 10800, 10900, 11000]::int list) = 5
   \<and> length ([9500, 9400, 9300, 9200, 9100]::int list) = 5
   \<and> ids_fresh ((init 0)\<lparr>future_bid := 10000, future_ask := 10100\<rparr>)
   \<and> map_sum id sent (handle_market_making ((init 0)\<lparr>future_bid := 10000, future_ask := 10100\<rparr>)
         [9500, 9400, 9300, 9200, 9100] [10, 10, 10, 10, 10] [10600, 10700, 10800, 10900, 11000] [10, 10, 10, 10, 10])
       = Inr [InsertOrder 1 SELL 10300 20 GOOD_FOR_DAY, InsertOrder 2 SELL 10400 20 GOOD_FOR_DAY,
              InsertOrder 3 SELL 10500 20 GOOD_FOR_DAY, InsertOrder 4 BUY 9500 20 GOOD_FOR_DAY,
              InsertOrder 5 BUY 9600 20 GOOD_FOR_DAY, InsertOrder 6 BUY 9700 20 GOOD_FOR_DAY]
   \<and> (\<exists>s' cancels new_asks new_bids.
       handle_market_making ((init 0)\<lparr>future_bid := 10000, future_ask := 10100\<rparr>)
         [9500, 9400, 9300, 9200, 9100] [10, 10, 10, 10, 10] [10600, 10700, 10800, 10900, 11000] [10, 10, 10, 10, 10] = Inr s'
     \<and> sent s' = sent ((init 0)\<lparr>future_bid := 10000, future_ask := 10100\<rparr>) @ map CancelOrder cancels
                    @ ladder SELL (order_ids ((init 0)\<lparr>future_bid := 10000, future_ask := 10100\<rparr>)) new_asks
                    @ ladder BUY (order_ids ((init 0)\<lparr>future_bid := 10000, future_ask := 10100\<rparr>) + int (length new_asks)) new_bids
     \<and> int (length new_asks)
           \<le> max 0 ((position ((init 0)\<lparr>future_bid := 10000, future_ask := 10100\<rparr>) + POSITION_LIMIT) div LOT_SIZE
                      - int (length (asks ((init 0)\<lparr>future_bid := 10000, future_ask := 10100\<rparr>))))
     \<and> int (length new_bids)
           \<le> max 0 ((POSITION_LIMIT - position ((init 0)\<lparr>future_bid := 10000, future_ask := 10100\<rparr>)) div LOT_SIZE
                      - int (length (bids ((init 0)\<lparr>future_bid := 10000, future_ask := 10100\<rparr>)))))"
proof -
  have h: "length ([10600, 10700, 10800, 10900, 11000]::int list) = 5"
    "length ([9500, 9400, 9300, 9200, 9100]::int list) = 5"
    "length ([10, 10, 10, 10, 10]::int list) = 5"
    "length ([10, 10, 10, 10, 10]::int list) = 5"
    by simp_all
  have f: "ids_fresh ((init 0)\<lparr>future_bid := 10000, future_ask := 10100\<rparr>)"
    by (simp add: ids_fresh_def init_def)
  have e: "map_sum id sent (handle_market_making ((init 0)\<lparr>future_bid := 10000, future_ask := 10100\<rparr>)
         [9500, 9400, 9300, 9200, 9100] [10, 10, 10, 10, 10] [10600, 10700, 10800, 10900, 11000] [10, 10, 10, 10, 10])
       = Inr [InsertOrder 1 SELL 10300 20 GOOD_FOR_DAY, InsertOrder 2 SELL 10400 20 GOOD_FOR_DAY,
              InsertOrder 3 SELL 10500 20 GOOD_FOR_DAY, InsertOrder 4 BUY 9500 20 GOOD_FOR_DAY,
              InsertOrder 5 BUY 9600 20 GOOD_FOR_DAY, InsertOrder 6 BUY 9700 20 GOOD_FOR_DAY]"
    by (simp add: handle_market_making_def clear_book_def py_last_def py_index_def
          range_step_Cons range_step_Nil send_ask_order_eq send_bid_order_eq has_room_def
          init_def LOT_SIZE_def POSITION_LIMIT_def TICK_SIZE_IN_CENTS_def Let_def)
  have i: "(\<exists>s' cancels new_asks new_bids.
       handle_market_making ((init 0)\<lparr>future_bid := 10000, future_ask := 10100\<rparr>)
         [9500, 9400, 9300, 9200, 9100] [10, 10, 10, 10, 10] [10600, 10700, 10800, 10900, 11000] [10, 10, 10, 10, 10] = Inr s'
     \<and> sent s' = sent ((init 0)\<lparr>future_bid := 10000, future_ask := 10100\<rparr>) @ map CancelOrder cancels
                    @ ladder SELL (order_ids ((init 0)\<lparr>future_bid := 10000, future_ask := 10100\<rparr>)) new_asks
                    @ ladder BUY (order_ids ((init 0)\<lparr>future_bid := 10000, future_ask := 10100\<rparr>) + int (length new_asks)) new_bids
     \<and> int (length new_asks)
           \<le> max 0 ((position ((init 0)\<lparr>future_bid := 10000, future_ask := 10100\<rparr>) + POSITION_LIMIT) div LOT_SIZE
                      - int (length (asks ((init 0)\<lparr>future_bid := 10000, future_ask := 10100\<rparr>))))
     \<and> int (length new_bids)
           \<le> max 0 ((POSITION_LIMIT - position ((init 0)\<lparr>future_bid := 10000, future_ask := 10100\<rparr>)) div LOT_SIZE
                      - int (length (bids ((init 0)\<lparr>future_bid := 10000, future_ask := 10100\<rparr>)))))"
    using market_making_quotes [OF h f] by blast
  show ?thesis using h(1,2) f e i by blast
qed

subsection \<open>The position\<close>

lemma wait_message_limit_room:
  "has_room s \<Longrightarrow>
   wait_message_limit s
     = Some (s\<lparr>order_timestamps := popleft_old (clock s) (order_timestamps s) @ [clock s]\<rparr>)"
  by (subst wait_message_limit.simps) (simp add: check_message_limit_eq)

lemma send_hedge_order_room:
  "has_room s \<Longrightarrow>
   send_hedge_order s price volume side =
     Some (True, s\<lparr>order_timestamps := popleft_old (clock s) (order_timestamps s) @ [clock s],
                    order_ids := order_ids s + 1,
                    hedge_bid := (if side = BID then insert (order_ids s) (hedge_bid s) else hedge_bid s),
                    hedge_ask := (if side = BID then hedge_ask s else insert (order_ids s) (hedge_ask s)),
                    sent := sent s @ [HedgeOrder (order_ids s) side price volume]\<rparr>)"
  by (simp add: send_hedge_order_def wait_message_limit_room Let_def)

lemma position_trim_orders [simp]: "position (trim_orders s) = position s"
  using core_trim_orders [of s] by (simp add: core_def)

lemma position_handle_arbitrage:
  "handle_arbitrage s ap av bp bv = Inr s' \<Longrightarrow> position s' = position s"
  by (drule core_handle_arbitrage) (simp add: core_def)

lemma position_handle_market_making:
  "handle_market_making s bp bv ap av = Inr s' \<Longrightarrow> position s' = position s"
  by (drule core_handle_market_making) (simp add: core_def)

lemma position_on_order_book_update:
  assumes "on_order_book_update_message s i n ap av bp bv = Inr s'"
  shows "position s' = position s"
  using assms
  by (auto simp: on_order_book_update_message_def Let_def
           split: sum.splits if_splits
           dest!: position_handle_arbitrage position_handle_market_making)

text \<open>
  No callback but \<open>on_order_filled_message\<close> changes the position
  (\<open>on_hedge_filled_message\<close> changes \<open>delta\<close> only).
\<close>

lemma position_changes_only_on_fill:
  assumes "deliver lo hi e s = Some s'" and "\<And>oid p v. e \<noteq> OrderFilled oid p v"
  shows "position s' = position s"
proof (cases e)
  case (OrderBookUpdate i n ap av bp bv)
  with assms(1) have "on_order_book_update_message s i n ap av bp bv = Inr s'"
    by (auto split: sum.splits)
  then show ?thesis by (rule position_on_order_book_update)
next
  case (TradeTicks i n ap av bp bv)
  with assms(1) show ?thesis by (simp add: on_trade_ticks_message_def)
next
  case (OrderFilled oid p v)
  with assms(2) show ?thesis by blast
next
  case (OrderStatus oid f r fees)
  with assms(1) show ?thesis by (auto simp: on_order_status_message_def split: if_splits)
next
  case (HedgeFilled oid p v)
  with assms(1) show ?thesis by (auto simp: on_hedge_filled_message_def split: if_splits)
next
  case (ErrorMessage oid d)
  with assms(1) show ?thesis
    by (auto simp: on_error_message_def on_order_status_message_def split: if_splits sum.splits)
next
  case (Elapse d)
  with assms(1) show ?thesis by (auto simp: time_sleep_def)
qed

text \<open>
  Claim C1. The position is changed by the fill handler only (the lemma above), and it is
  meant to stay within \<open>POSITION_LIMIT\<close> for fills of orders sized by the two
  strategies. The code misses that bound. After a snapshot of the future (bid 10000, ask
  10100), an ETF snapshot with best bid 9000 and best ask 10300 makes the quoter place five
  bids of 20 lots, at 9000 to 9400: the position is 0 and the capacity is 5. An ETF
  snapshot with best ask 9900 then makes the arbitrage detector send a fill-and-kill buy of
  \<open>min(20, ARBITRAGE_LIMIT - 0) = 20\<close> lots, sized from the position alone. Every order
  is sized by its rule, and each is then filled in full, once: the position ends at 120,
  above \<open>POSITION_LIMIT\<close>.
\<close>

theorem position_limit_exceeded:
  "map_option sent (run 1 2147483647
       [OrderBookUpdate FUTURE 1 [10100, 10200, 10300, 10400, 10500] [10, 10, 10, 10, 10]
         [10000, 9900, 9800, 9700, 9600] [10, 10, 10, 10, 10],
        OrderBookUpdate ETF 2 [10300, 10400, 10500, 10600, 10700] [10, 10, 10, 10, 10]
         [9000, 8900, 8800, 8700, 8600] [10, 10, 10, 10, 10],
        OrderBookUpdate ETF 3 [9900, 10000, 10100, 10200, 10300] [20, 10, 10, 10, 10]
         [9800, 9700, 9600, 9500, 9400] [10, 10, 10, 10, 10]]
       (init 0))
     = Some [InsertOrder 1 BUY 9000 20 GOOD_FOR_DAY, InsertOrder 2 BUY 9100 20 GOOD_FOR_DAY,
             InsertOrder 3 BUY 9200 20 GOOD_FOR_DAY, InsertOrder 4 BUY 9300 20 GOOD_FOR_DAY,
             InsertOrder 5 BUY 9400 20 GOOD_FOR_DAY, InsertOrder 6 BUY 9900 20 FILL_AND_KILL]
   \<and> map_option position (run 1 2147483647
       ([OrderBookUpdate FUTURE 1 [10100, 10200, 10300, 10400, 10500] [10, 10, 10, 10, 10]
         [10000, 9900, 9800, 9700, 9600] [10, 10, 10, 10, 10],
        OrderBookUpdate ETF 2 [10300, 10400, 10500, 10600, 10700] [10, 10, 10, 10, 10]
         [9000, 8900, 8800, 8700, 8600] [10, 10, 10, 10, 10],
        OrderBookUpdate ETF 3 [9900, 10000, 10100, 10200, 10300] [20, 10, 10, 10, 10]
         [9800, 9700, 9600, 9500, 9400] [10, 10, 10, 10, 10]]
        @ [OrderFilled 6 9900 20, OrderStatus 6 20 0 0,
        OrderFilled 1 9000 20, OrderFilled 2 9100 20, OrderFilled 3 9200 20,
        OrderFilled 4 9300 20, OrderFilled 5 9400 20])
       (init 0))
     = Some 120
   \<and> POSITION_LIMIT < 120"
  by (simp add: on_order_book_update_message_def handle_arbitrage_def trim_orders_def
        handle_market_making_def clear_book_def py_last_def py_index_def
        range_step_Cons range_step_Nil send_ask_order_eq send_bid_order_eq
        on_order_filled_message_def on_order_status_message_def send_hedge_order_room
        has_room_def init_def LOT_SIZE_def POSITION_LIMIT_def ARBITRAGE_LIMIT_def
        TICK_SIZE_IN_CENTS_def Let_def)

subsection \<open>Well-formed states\<close>

lemma trader_ok_init: "trader_ok (init c)"
  by (simp add: trader_ok_def ids_fresh_def init_def)

lemma pruned_room:
  assumes "length (order_timestamps s) \<le> 50" "has_room s"
  shows "length (popleft_old (clock s) (order_timestamps s)) \<le> 49"
  using assms popleft_old_length [of "clock s" "order_timestamps s"]
  by (simp add: has_room_def)

lemma pruned_le:
  assumes "length (order_timestamps s) \<le> 50"
  shows "length (popleft_old (clock s) (order_timestamps s)) \<le> 50"
  using assms popleft_old_length [of "clock s" "order_timestamps s"] by linarith

lemma trader_ok_send_cancel_order:
  assumes "trader_ok s"
  shows "trader_ok (snd (send_cancel_order s order_id))"
proof -
  have "length (order_timestamps s) \<le> 50" using assms by (simp add: trader_ok_def)
  from pruned_room [OF this] pruned_le [OF this] assms show ?thesis
    by (simp add: send_cancel_order_eq trader_ok_def ids_fresh_def)
qed

lemma update_keys_fresh:
  assumes "\<forall>k\<in>fst ` set al. k < (oid::int)"
  shows "\<forall>k\<in>fst ` set (AList.update oid v al). k < oid + 1"
  using assms unfolding dom_update by auto

lemma keys_still_fresh:
  "\<forall>k\<in>fst ` set al. k < oid \<Longrightarrow> \<forall>k\<in>fst ` set al. k < oid + (1::int)"
  by auto

lemma trader_ok_send_bid_order:
  assumes "trader_ok s"
  shows "trader_ok (snd (send_bid_order s price volume type))"
proof -
  have "length (order_timestamps s) \<le> 50" using assms by (simp add: trader_ok_def)
  from pruned_room [OF this] pruned_le [OF this] assms
    update_keys_fresh [of "bids s" "order_ids s" price] keys_still_fresh [of "asks s" "order_ids s"]
  show ?thesis
    by (simp add: send_bid_order_eq trader_ok_def ids_fresh_def distinct_update)
qed

lemma trader_ok_send_ask_order:
  assumes "trader_ok s"
  shows "trader_ok (snd (send_ask_order s price volume type))"
proof -
  have "length (order_timestamps s) \<le> 50" using assms by (simp add: trader_ok_def)
  from pruned_room [OF this] pruned_le [OF this] assms
    update_keys_fresh [of "asks s" "order_ids s" price] keys_still_fresh [of "bids s" "order_ids s"]
  show ?thesis
    by (simp add: send_ask_order_eq trader_ok_def ids_fresh_def distinct_update)
qed

lemma trader_ok_cancel_where: "trader_ok s \<Longrightarrow> trader_ok (cancel_where P items s)"
  by (induction P items s rule: cancel_where.induct) (simp_all add: trader_ok_send_cancel_order)

lemma trader_ok_place_asks: "trader_ok s \<Longrightarrow> trader_ok (place_asks prices n s)"
  by (induction prices n s rule: place_asks.induct) (simp_all add: trader_ok_send_ask_order)

lemma trader_ok_place_bids: "trader_ok s \<Longrightarrow> trader_ok (place_bids prices n s)"
  by (induction prices n s rule: place_bids.induct) (simp_all add: trader_ok_send_bid_order)

lemma trader_ok_trim_orders: "trader_ok s \<Longrightarrow> trader_ok (trim_orders s)"
  by (simp add: trim_orders_def Let_def trader_ok_cancel_where)

lemma trader_ok_clear_book:
  assumes "trader_ok s" "clear_book s ap bp av bv = Inr s'"
  shows "trader_ok s'"
proof -
  from assms(2) have "\<exists>P Q. s' = cancel_where Q (asks (cancel_where P (bids s) s))
                                  (cancel_where P (bids s) s)"
    by (auto simp: clear_book_def Let_def split: sum.splits)
  then obtain P Q where "s' = cancel_where Q (asks (cancel_where P (bids s) s))
                                  (cancel_where P (bids s) s)"
    by blast
  then show ?thesis using assms(1) by (simp add: trader_ok_cancel_where)
qed

lemma trader_ok_handle_arbitrage:
  assumes "trader_ok s" "handle_arbitrage s ap av bp bv = Inr s'"
  shows "trader_ok s'"
proof -
  from assms(2) have "s' = s \<or> (\<exists>p v. s' = snd (send_bid_order s p v FILL_AND_KILL))
      \<or> (\<exists>p v. s' = snd (send_ask_order s p v FILL_AND_KILL))"
    by (auto simp: handle_arbitrage_def Let_def split: sum.splits if_splits)
  then show ?thesis
    using assms(1) trader_ok_send_bid_order trader_ok_send_ask_order by blast
qed

lemma trader_ok_handle_market_making:
  assumes "trader_ok s" "handle_market_making s bp bv ap av = Inr s'"
  shows "trader_ok s'"
proof -
  from assms(2) obtain s1 where s1: "clear_book s ap bp av bv = Inr s1"
    by (auto simp: handle_market_making_def split: sum.splits)
  have ok1: "trader_ok s1" using trader_ok_clear_book [OF assms(1) s1] .
  from assms(2) have "\<exists>pa n pb m. s' = place_bids pb m (place_asks pa n s1)"
    unfolding handle_market_making_def s1 by (auto simp: Let_def split: sum.splits)
  then obtain pa n pb m where "s' = place_bids pb m (place_asks pa n s1)" by blast
  then show ?thesis using ok1 by (simp add: trader_ok_place_asks trader_ok_place_bids)
qed

lemma trader_ok_other_fields:
  "trader_ok (s\<lparr>msg_seq := m\<rparr>) = trader_ok s"
  "trader_ok (s\<lparr>future_bid := b, future_ask := a\<rparr>) = trader_ok s"
  "trader_ok (s\<lparr>clock := c\<rparr>) = trader_ok s"
  "trader_ok (s\<lparr>position := p, delta := d\<rparr>) = trader_ok s"
  by (simp_all add: trader_ok_def ids_fresh_def)

lemma trader_ok_on_order_book_update:
  assumes "trader_ok s" "on_order_book_update_message s i n ap av bp bv = Inr s'"
  shows "trader_ok s'"
proof -
  define s1 where "s1 = s\<lparr>msg_seq := max (msg_seq s) n\<rparr>"
  have ok1: "trader_ok s1"
    using assms(1) by (simp add: s1_def trader_ok_other_fields)
  have A: "handle_arbitrage s1 ap av bp bv = Inr x \<Longrightarrow> trader_ok x" for x
    using ok1 by (rule trader_ok_handle_arbitrage)
  have M: "handle_market_making s1 bp bv ap av = Inr x \<Longrightarrow> trader_ok x" for x
    using ok1 by (rule trader_ok_handle_market_making)
  have T: "trader_ok x \<Longrightarrow> trader_ok (trim_orders (x\<lparr>future_bid := b, future_ask := a\<rparr>))"
    for x b a
    by (simp add: trader_ok_other_fields trader_ok_trim_orders)
  have unfold: "on_order_book_update_message s i n ap av bp bv =
     (if n \<noteq> msg_seq s1 then Inr s1
         else case py_index bp 0 of Inl e \<Rightarrow> Inl e | Inr bid0 \<Rightarrow>
           if bid0 = 0 then Inr s1
           else case py_index ap 0 of Inl e \<Rightarrow> Inl e | Inr ask0 \<Rightarrow>
           if ask0 = 0 then Inr s1
           else
             case (if i = ETF then
                     (if ask0 < future_bid s1 \<or> bid0 > future_ask s1
                      then handle_arbitrage s1 ap av bp bv
                      else if ask0 > future_ask s1 \<and> bid0 < future_bid s1
                      then handle_market_making s1 bp bv ap av
                      else Inr s1)
                   else Inr s1) of
               Inl e \<Rightarrow> Inl e
             | Inr s2 \<Rightarrow>
                 if i = FUTURE
                 then Inr (trim_orders (s2\<lparr>future_bid := bid0, future_ask := ask0\<rparr>))
                 else Inr s2)"
    unfolding on_order_book_update_message_def Let_def s1_def by (rule refl)
  show ?thesis
    using assms(2) ok1 A M T unfolding unfold
    by (auto split: sum.splits if_splits)
qed

lemma trader_ok_on_order_status:
  assumes "trader_ok s"
  shows "trader_ok (on_order_status_message s oid f r fees)"
proof (cases "r = 0")
  case False
  with assms show ?thesis by (simp add: on_order_status_message_def)
next
  case True
  define B where "B = AList.delete oid (bids s)"
  define A where "A = AList.delete oid (asks s)"
  have fresh: "\<forall>k\<in>fst ` set (bids s). k < order_ids s" "\<forall>k\<in>fst ` set (asks s). k < order_ids s"
    and dist: "distinct (map fst (bids s))" "distinct (map fst (asks s))"
    and len: "length (order_timestamps s) \<le> 50"
    using assms unfolding trader_ok_def ids_fresh_def by blast+
  have "fst ` set B \<subseteq> fst ` set (bids s)" unfolding B_def by (rule dom_delete_subset)
  with fresh(1) have 1: "\<forall>k\<in>fst ` set B. k < order_ids s" by blast
  have "fst ` set A \<subseteq> fst ` set (asks s)" unfolding A_def by (rule dom_delete_subset)
  with fresh(2) have 2: "\<forall>k\<in>fst ` set A. k < order_ids s" by blast
  have 3: "distinct (map fst B)" unfolding B_def using dist(1) by (rule distinct_delete)
  have 4: "distinct (map fst A)" unfolding A_def using dist(2) by (rule distinct_delete)
  have "on_order_status_message s oid f r fees = s\<lparr>bids := B, asks := A\<rparr>"
    using True by (simp add: on_order_status_message_def A_def B_def)
  then show ?thesis using 1 2 3 4 len by (simp add: trader_ok_def ids_fresh_def)
qed

lemma wait_message_limit_window_bounded:
  "\<forall>e\<in>set (order_timestamps s). e < clock s + real n / 10 - 1.01 \<Longrightarrow>
   length (order_timestamps s) \<le> 50 \<Longrightarrow> wait_message_limit s = Some s' \<Longrightarrow>
   length (order_timestamps s') \<le> 50"
proof (induction n arbitrary: s)
  case 0
  then have e: "popleft_old (clock s) (order_timestamps s) = []"
    by (intro popleft_old_all_old) simp
  have "wait_message_limit s = Some (s\<lparr>order_timestamps := [clock s]\<rparr>)"
    by (subst wait_message_limit.simps) (simp add: check_message_limit_def check_window_def e)
  with "0.prems"(3) show ?case by auto
next
  case (Suc n)
  define w1 where "w1 = popleft_old (clock s) (order_timestamps s)"
  have le: "length w1 \<le> 50" unfolding w1_def using pruned_le [OF Suc.prems(2)] .
  show ?case
  proof (cases "length w1 = 50")
    case False
    then have "wait_message_limit s = Some (s\<lparr>order_timestamps := w1 @ [clock s]\<rparr>)"
      unfolding w1_def
      by (subst wait_message_limit.simps) (simp add: check_message_limit_def check_window_def)
    with Suc.prems(3) False le show ?thesis by auto
  next
    case True
    define s2 where "s2 = time_sleep 0.1 (s\<lparr>order_timestamps := w1\<rparr>)"
    have step: "wait_message_limit s = wait_message_limit s2"
      using True unfolding w1_def s2_def
      by (subst wait_message_limit.simps) (simp add: check_message_limit_def check_window_def)
    have "set w1 \<subseteq> set (order_timestamps s)" unfolding w1_def by (rule popleft_old_subset)
    then have b: "\<forall>e\<in>set (order_timestamps s2). e < clock s2 + real n / 10 - 1.01"
      using Suc.prems(1) unfolding s2_def time_sleep_def by (auto simp: field_simps)
    have l: "length (order_timestamps s2) \<le> 50" using le by (simp add: s2_def time_sleep_def)
    from Suc.IH [OF b l] Suc.prems(3) step show ?thesis by simp
  qed
qed

lemma wait_message_limit_window:
  assumes "wait_message_limit s = Some s'" "length (order_timestamps s) \<le> 50"
  shows "length (order_timestamps s') \<le> 50"
  using timestamps_bounded [of "order_timestamps s" "clock s"]
    wait_message_limit_window_bounded [OF _ assms(2) assms(1)]
  by blast

lemma trader_ok_send_hedge_order:
  assumes "trader_ok s" "send_hedge_order s price volume side = Some (b, s')"
  shows "trader_ok s'"
proof -
  obtain w c where wc: "wait_message_limit s = Some (s\<lparr>order_timestamps := w, clock := c\<rparr>)"
    using wait_message_limit_returns by blast
  have "length (order_timestamps s) \<le> 50" using assms(1) by (simp add: trader_ok_def)
  from wait_message_limit_window [OF wc this] have w: "length w \<le> 50" by simp
  have s': "s' = s\<lparr>order_timestamps := w, clock := c, order_ids := order_ids s + 1,
                    hedge_bid := (if side = BID then insert (order_ids s) (hedge_bid s) else hedge_bid s),
                    hedge_ask := (if side = BID then hedge_ask s else insert (order_ids s) (hedge_ask s)),
                    sent := sent s @ [HedgeOrder (order_ids s) side price volume]\<rparr>"
    using assms(2) wc by (auto simp: send_hedge_order_def Let_def)
  show ?thesis
    unfolding s' using assms(1) w
      keys_still_fresh [of "bids s" "order_ids s"] keys_still_fresh [of "asks s" "order_ids s"]
    by (simp add: trader_ok_def ids_fresh_def)
qed

lemma trader_ok_on_order_filled:
  assumes "trader_ok s" "on_order_filled_message lo hi s oid p v = Some s'"
  shows "trader_ok s'"
proof -
  consider "oid \<in> fst ` set (bids s)"
    | "oid \<notin> fst ` set (bids s)" "oid \<in> fst ` set (asks s)"
    | "oid \<notin> fst ` set (bids s)" "oid \<notin> fst ` set (asks s)" by blast
  then show ?thesis
  proof cases
    case 1
    with assms(2) obtain b where
      "send_hedge_order (s\<lparr>position := position s + v, delta := delta s + v\<rparr>)
         (MIN_BID_NEAREST_TICK lo) v ASK = Some (b, s')"
      by (auto simp: on_order_filled_message_def)
    moreover have "trader_ok (s\<lparr>position := position s + v, delta := delta s + v\<rparr>)"
      using assms(1) by (simp add: trader_ok_other_fields)
    ultimately show ?thesis using trader_ok_send_hedge_order by blast
  next
    case 2
    with assms(2) obtain b where
      "send_hedge_order (s\<lparr>position := position s - v, delta := delta s - v\<rparr>)
         (MAX_ASK_NEAREST_TICK hi) v BID = Some (b, s')"
      by (auto simp: on_order_filled_message_def)
    moreover have "trader_ok (s\<lparr>position := position s - v, delta := delta s - v\<rparr>)"
      using assms(1) by (simp add: trader_ok_other_fields)
    ultimately show ?thesis using trader_ok_send_hedge_order by blast
  next
    case 3
    with assms show ?thesis by (simp add: on_order_filled_message_def)
  qed
qed

lemma trader_ok_deliver:
  assumes "trader_ok s" "deliver lo hi e s = Some s'"
  shows "trader_ok s'"
proof (cases e)
  case (OrderBookUpdate i n ap av bp bv)
  with assms(2) have "on_order_book_update_message s i n ap av bp bv = Inr s'"
    by (auto split: sum.splits)
  with assms(1) show ?thesis by (rule trader_ok_on_order_book_update)
next
  case (TradeTicks i n ap av bp bv)
  with assms show ?thesis by (simp add: on_trade_ticks_message_def)
next
  case (OrderFilled oid p v)
  with assms(2) have "on_order_filled_message lo hi s oid p v = Some s'" by simp
  with assms(1) show ?thesis by (rule trader_ok_on_order_filled)
next
  case (OrderStatus oid f r fees)
  with assms(2) have "s' = on_order_status_message s oid f r fees" by simp
  with assms(1) show ?thesis by (simp add: trader_ok_on_order_status)
next
  case (HedgeFilled oid p v)
  with assms(2) have "s' = on_hedge_filled_message s oid p v" by simp
  with assms(1) show ?thesis
    by (simp add: on_hedge_filled_message_def trader_ok_def ids_fresh_def)
next
  case (ErrorMessage oid d)
  with assms(2) have "s' = s \<or> s' = on_order_status_message s oid 0 0 0"
    by (auto simp: on_error_message_def split: if_splits)
  with assms(1) show ?thesis using trader_ok_on_order_status by blast
next
  case (Elapse d)
  with assms(2) have "s' = s\<lparr>clock := clock s + d\<rparr>" by (simp add: time_sleep_def)
  with assms(1) show ?thesis by (simp add: trader_ok_other_fields)
qed

text \<open>Every state reached from the initial one is well-formed.\<close>

lemma trader_ok_run:
  "trader_ok s \<Longrightarrow> run lo hi es s = Some s' \<Longrightarrow> trader_ok s'"
proof (induction es arbitrary: s)
  case Nil
  then show ?case by simp
next
  case (Cons e es)
  from Cons.prems(2) obtain s1 where "deliver lo hi e s = Some s1" "run lo hi es s1 = Some s'"
    by (auto split: option.splits)
  with Cons.IH [of s1] trader_ok_deliver [OF Cons.prems(1)] show ?case by blast
qed

lemma trader_ok_reachable:
  "run lo hi es (init c) = Some s \<Longrightarrow>
   ids_fresh s \<and> length (order_timestamps s) \<le> 50
   \<and> distinct (map fst (bids s)) \<and> distinct (map fst (asks s))"
  using trader_ok_run [OF trader_ok_init] by (auto simp: trader_ok_def)

end
